theory Spec2Isabelle
  imports Complex_Main "HOL-Library.Log_Nat"
begin

section \<open>Python values and the operations the tool handlers apply to them\<close>

text \<open>
  The analysis result \<open>detail\<close> is whatever \<open>omniparser.parse_raw\<close> returned: a
  dynamically typed value built from dictionaries, lists, strings and integers. The
  handlers subscript it and iterate over it, and each of these operations raises on a
  value of the wrong shape, so the value is kept dynamically typed here as well.
  Dictionaries have string keys and are association lists (the first binding of a key
  counts). Floats and booleans do not occur in the values modelled; the floats that
  the handlers compute are modelled below.
\<close>

datatype py_error =
    TypeError | KeyError | IndexError | ZeroDivisionError | OverflowError | ValueError
  | AttributeError | NameError | UnboundLocalError | CollaboratorError

datatype pyval =
    PNone
  | PInt int
  | PStr string
  | PList "pyval list"
  | PDict "(string \<times> pyval) list"

fun ebind :: "'e + 'a \<Rightarrow> ('a \<Rightarrow> 'e + 'b) \<Rightarrow> 'e + 'b" where
  "ebind (Inl e) f = Inl e"
| "ebind (Inr v) f = f v"

text \<open>\<open>v[k]\<close> for a string \<open>k\<close>.\<close>

fun getitem_str :: "pyval \<Rightarrow> string \<Rightarrow> py_error + pyval" where
  "getitem_str (PDict kvs) k = (case map_of kvs k of None \<Rightarrow> Inl KeyError | Some v \<Rightarrow> Inr v)"
| "getitem_str PNone k = Inl TypeError"
| "getitem_str (PInt n) k = Inl TypeError"
| "getitem_str (PStr s) k = Inl TypeError"
| "getitem_str (PList xs) k = Inl TypeError"

text \<open>\<open>v[i]\<close> for an integer \<open>i\<close>; a negative index counts from the end.\<close>

definition seq_index :: "'a list \<Rightarrow> int \<Rightarrow> py_error + 'a" where
  "seq_index xs i =
     (if 0 \<le> i \<and> i < int (length xs) then Inr (xs ! nat i)
      else if i < 0 \<and> - int (length xs) \<le> i then Inr (xs ! nat (int (length xs) + i))
      else Inl IndexError)"

fun getitem_int :: "pyval \<Rightarrow> int \<Rightarrow> py_error + pyval" where
  "getitem_int (PList xs) i = seq_index xs i"
| "getitem_int (PStr s) i = ebind (seq_index s i) (\<lambda>c. Inr (PStr [c]))"
| "getitem_int (PDict kvs) i = Inl KeyError"
| "getitem_int PNone i = Inl TypeError"
| "getitem_int (PInt n) i = Inl TypeError"

text \<open>\<open>for x in v\<close>: the sequence of values the loop variable takes.\<close>

fun py_iter :: "pyval \<Rightarrow> py_error + pyval list" where
  "py_iter (PList xs) = Inr xs"
| "py_iter (PDict kvs) = Inr (map (\<lambda>kv. PStr (fst kv)) kvs)"
| "py_iter (PStr s) = Inr (map (\<lambda>c. PStr [c]) s)"
| "py_iter PNone = Inl TypeError"
| "py_iter (PInt n) = Inl TypeError"

text \<open>\<open>a + b\<close>, \<open>a * n\<close> for an integer \<open>n\<close>, and true division \<open>a / b\<close>.\<close>

fun py_add :: "pyval \<Rightarrow> pyval \<Rightarrow> py_error + pyval" where
  "py_add (PInt a) (PInt b) = Inr (PInt (a + b))"
| "py_add (PStr a) (PStr b) = Inr (PStr (a @ b))"
| "py_add (PList a) (PList b) = Inr (PList (a @ b))"
| "py_add a b = Inl TypeError"

fun py_mul :: "pyval \<Rightarrow> int \<Rightarrow> py_error + pyval" where
  "py_mul (PInt a) n = Inr (PInt (a * n))"
| "py_mul (PStr s) n = Inr (PStr (concat (replicate (nat n) s)))"
| "py_mul (PList xs) n = Inr (PList (concat (replicate (nat n) xs)))"
| "py_mul PNone n = Inl TypeError"
| "py_mul (PDict kvs) n = Inl TypeError"

text \<open>
  A Python float is an IEEE double. A finite double is \<open>m * 2^e\<close> for integers
  \<open>m\<close> and \<open>e\<close> with \<open>|m| \<le> 2^53\<close> and \<open>e \<ge> -1074\<close>, and is kept here as
  that pair.
\<close>

type_synonym pyfloat = "int \<times> int"

definition float_val :: "pyfloat \<Rightarrow> rat" where
  "float_val f = of_int (fst f) * 2 powi (snd f)"

text \<open>Rounding to the nearest integer, a tie going to the even one.\<close>

definition round_half_even :: "rat \<Rightarrow> int" where
  "round_half_even x =
     (if x - of_int \<lfloor>x\<rfloor> < 1 / 2 then \<lfloor>x\<rfloor>
      else if 1 / 2 < x - of_int \<lfloor>x\<rfloor> then \<lfloor>x\<rfloor> + 1
      else if even \<lfloor>x\<rfloor> then \<lfloor>x\<rfloor> else \<lfloor>x\<rfloor> + 1)"

text \<open>
  For positive \<open>a\<close> and \<open>b\<close>, the \<open>t\<close> with \<open>2^t \<le> a / b < 2^(t + 1)\<close>, and
  the double nearest to \<open>a / b\<close>: 53 significant bits, or fewer at the smallest
  exponent.
\<close>

definition binade :: "int \<Rightarrow> int \<Rightarrow> int" where
  "binade a b =
     (let l = bitlen a - bitlen b
      in if 2 powi l * of_int b \<le> (of_int a :: rat) then l else l - 1)"

definition round_quotient :: "int \<Rightarrow> int \<Rightarrow> pyfloat" where
  "round_quotient a b =
     (if a = 0 then (0, 0)
      else let e = max (binade a b - 52) (- 1074)
           in (round_half_even (of_int a / of_int b / 2 powi e), e))"

text \<open>
  \<open>a / b\<close> for integers: the correctly rounded quotient, ZeroDivisionError for a
  zero divisor, OverflowError when the quotient is too large for a double.
\<close>

definition int_truediv :: "int \<Rightarrow> int \<Rightarrow> py_error + pyfloat" where
  "int_truediv a b =
     (if b = 0 then Inl ZeroDivisionError
      else
        (let r = round_quotient \<bar>a\<bar> \<bar>b\<bar>;
             f = (if (a < 0) = (b < 0) then r else (- fst r, snd r))
         in if 2 ^ 1024 \<le> \<bar>float_val f\<bar> then Inl OverflowError else Inr f))"

fun py_truediv :: "pyval \<Rightarrow> pyval \<Rightarrow> py_error + pyfloat" where
  "py_truediv (PInt a) (PInt b) = int_truediv a b"
| "py_truediv a b = Inl TypeError"

text \<open>
  \<open>q / 2\<close> for a float \<open>q\<close>: exact, except at the smallest exponent, where the
  last bit is rounded away.
\<close>

definition float_half :: "pyfloat \<Rightarrow> pyfloat" where
  "float_half f =
     (if - 1074 < snd f then (fst f, snd f - 1)
      else (sgn (fst f) * round_half_even (of_int \<bar>fst f\<bar> / 2), snd f))"

text \<open>\<open>int(q)\<close>: truncation towards zero, here of the value of a float.\<close>

definition py_int :: "rat \<Rightarrow> int" where
  "py_int q = (if 0 \<le> q then \<lfloor>q\<rfloor> else \<lceil>q\<rceil>)"

text \<open>\<open>content.isascii()\<close> on a string given by its code points.\<close>

definition isascii :: "nat list \<Rightarrow> bool" where
  "isascii content = list_all (\<lambda>c. c < 128) content"

section \<open>The state shared by the tool handlers\<close>

type_synonym window = nat

record image =
  img_width :: int
  img_height :: int
  img_data :: nat

text \<open>Every call into pyautogui, pyperclip or a window is recorded, in order.\<close>

datatype event =
    EvClick int int string int
  | EvMoveTo int int
  | EvDragTo int int string
  | EvKeyDown string
  | EvKeyUp string
  | EvScroll int
  | EvWrite "nat list"
  | EvCopy "nat list"
  | EvHotkey "string list"
  | EvActivate window

text \<open>
  The background thread runs \<open>omniparser_thread_func\<close> of the call that started it;
  \<open>t_owner\<close> is that call, whose local \<open>detail_text\<close> the thread writes. Its
  position records what the thread has stored so far: the value \<open>parse_raw\<close>
  returned to it, and the preview it has encoded.
\<close>

datatype thread_pc =
    AtParse
  | AtImage pyval
  | AtSummary pyval image
  | Finished pyval image
  | Raised py_error

record thread =
  t_owner :: nat
  t_pc :: thread_pc

text \<open>One frame per call of \<open>omniparser_details_on_screen\<close>: its local and its return value.\<close>

record frame =
  detail_text :: string
  returned :: "(py_error + string \<times> image) option"

record state =
  omniparser_thread :: "nat option"
  result_image :: "image option"
  detail :: pyval
  is_finished :: bool
  current_mouse_x :: int
  current_mouse_y :: int
  current_window :: "window option"
  threads :: "thread list"
  frames :: "frame list"
  trace :: "event list"

text \<open>What \<open>pyautogui.size()\<close> and \<open>gw.getActiveWindow()\<close> answer during a call.\<close>

record world =
  screen_width :: int
  screen_height :: int
  active_window :: "window option"

definition INPUT_IMAGE_SIZE :: int where
  "INPUT_IMAGE_SIZE = 960"

definition PADDING_SIZE :: int where
  "PADDING_SIZE = 0"

section \<open>Click, drag and move\<close>

text \<open>
  The expression of lines 120, 121, 145, 146, 148, 149, 176 and 177, evaluated left to
  right:
  \<^verbatim>\<open>int((compos['position'][kmin] + compos['position'][kmax])
       * (screen + PADDING_SIZE * 2) / detail['img_shape'][axis] / 2) - PADDING_SIZE\<close>
\<close>

definition mapped_coord :: "pyval \<Rightarrow> pyval \<Rightarrow> int \<Rightarrow> string \<Rightarrow> string \<Rightarrow> int \<Rightarrow> py_error + int" where
  "mapped_coord d compos screen kmin kmax axis =
     ebind (getitem_str compos ''position'') (\<lambda>p1.
     ebind (getitem_str p1 kmin) (\<lambda>a.
     ebind (getitem_str compos ''position'') (\<lambda>p2.
     ebind (getitem_str p2 kmax) (\<lambda>b.
     ebind (py_add a b) (\<lambda>s.
     ebind (py_mul s (screen + PADDING_SIZE * 2)) (\<lambda>m.
     ebind (getitem_str d ''img_shape'') (\<lambda>sh.
     ebind (getitem_int sh axis) (\<lambda>c.
     ebind (py_truediv m c) (\<lambda>q.
     Inr (py_int (float_val (float_half q)) - PADDING_SIZE))))))))))"

definition mapped_x :: "world \<Rightarrow> pyval \<Rightarrow> pyval \<Rightarrow> py_error + int" where
  "mapped_x w d compos = mapped_coord d compos (screen_width w) ''column_min'' ''column_max'' 1"

definition mapped_y :: "world \<Rightarrow> pyval \<Rightarrow> pyval \<Rightarrow> py_error + int" where
  "mapped_y w d compos = mapped_coord d compos (screen_height w) ''row_min'' ''row_max'' 0"

text \<open>The loop of \<open>omniparser_click\<close> over \<open>detail['compos']\<close>.\<close>

fun click_loop :: "world \<Rightarrow> int \<Rightarrow> string \<Rightarrow> int \<Rightarrow> pyval list \<Rightarrow> state \<Rightarrow> (py_error + bool) \<times> state" where
  "click_loop w i button clicks [] st = (Inr False, st)"
| "click_loop w i button clicks (compos # rest) st =
     (case getitem_str compos ''id'' of
        Inl e \<Rightarrow> (Inl e, st)
      | Inr v \<Rightarrow>
          if v = PInt i then
            (case mapped_x w (detail st) compos of
               Inl e \<Rightarrow> (Inl e, st)
             | Inr x \<Rightarrow>
                 (case mapped_y w (detail st) compos of
                    Inl e \<Rightarrow> (Inl e, st\<lparr>current_mouse_x := x\<rparr>)
                  | Inr y \<Rightarrow>
                      (Inr True,
                       st\<lparr>current_mouse_x := x, current_mouse_y := y,
                          trace := trace st @ [EvClick x y button clicks],
                          current_window := active_window w\<rparr>)))
          else click_loop w i button clicks rest st)"

definition omniparser_click :: "world \<Rightarrow> int \<Rightarrow> string \<Rightarrow> int \<Rightarrow> state \<Rightarrow> (py_error + bool) \<times> state" where
  "omniparser_click w i button clicks st =
     (case ebind (getitem_str (detail st) ''compos'') py_iter of
        Inl e \<Rightarrow> (Inl e, st)
      | Inr cs \<Rightarrow> click_loop w i button clicks cs st)"

text \<open>The loop of \<open>omniparser_mouse_move\<close>.\<close>

fun move_loop :: "world \<Rightarrow> int \<Rightarrow> pyval list \<Rightarrow> state \<Rightarrow> (py_error + bool) \<times> state" where
  "move_loop w i [] st = (Inr False, st)"
| "move_loop w i (compos # rest) st =
     (case getitem_str compos ''id'' of
        Inl e \<Rightarrow> (Inl e, st)
      | Inr v \<Rightarrow>
          if v = PInt i then
            (case mapped_x w (detail st) compos of
               Inl e \<Rightarrow> (Inl e, st)
             | Inr x \<Rightarrow>
                 (case mapped_y w (detail st) compos of
                    Inl e \<Rightarrow> (Inl e, st\<lparr>current_mouse_x := x\<rparr>)
                  | Inr y \<Rightarrow>
                      (Inr True,
                       st\<lparr>current_mouse_x := x, current_mouse_y := y,
                          trace := trace st @ [EvMoveTo x y],
                          current_window := active_window w\<rparr>)))
          else move_loop w i rest st)"

definition omniparser_mouse_move :: "world \<Rightarrow> int \<Rightarrow> state \<Rightarrow> (py_error + bool) \<times> state" where
  "omniparser_mouse_move w i st =
     (case ebind (getitem_str (detail st) ''compos'') py_iter of
        Inl e \<Rightarrow> (Inl e, st)
      | Inr cs \<Rightarrow> move_loop w i cs st)"

text \<open>
  \<open>omniparser_drags\<close> keeps \<open>from_x, from_y, to_x, to_y\<close> in locals; \<open>from_y\<close> and
  \<open>to_y\<close> are unbound until an element matches. The loop has no \<open>return\<close>: it visits
  every element, and a later match overwrites an earlier one.
\<close>

type_synonym drag_locals = "int \<times> int option \<times> int \<times> int option"

definition mapped_point :: "world \<Rightarrow> pyval \<Rightarrow> pyval \<Rightarrow> py_error + int \<times> int option" where
  "mapped_point w d compos =
     ebind (mapped_x w d compos) (\<lambda>x. ebind (mapped_y w d compos) (\<lambda>y. Inr (x, Some y)))"

fun drags_loop :: "world \<Rightarrow> pyval \<Rightarrow> int \<Rightarrow> int \<Rightarrow> pyval list \<Rightarrow> drag_locals \<Rightarrow> py_error + drag_locals" where
  "drags_loop w d from_id to_id [] loc = Inr loc"
| "drags_loop w d from_id to_id (compos # rest) (from_x, from_y, to_x, to_y) =
     (case getitem_str compos ''id'' of
        Inl e \<Rightarrow> Inl e
      | Inr v \<Rightarrow>
          (case (if v = PInt from_id then mapped_point w d compos else Inr (from_x, from_y)) of
             Inl e \<Rightarrow> Inl e
           | Inr (from_x', from_y') \<Rightarrow>
               (case (if v = PInt to_id then mapped_point w d compos else Inr (to_x, to_y)) of
                  Inl e \<Rightarrow> Inl e
                | Inr (to_x', to_y') \<Rightarrow>
                    drags_loop w d from_id to_id rest (from_x', from_y', to_x', to_y'))))"

definition held_key :: "string option \<Rightarrow> string list" where
  "held_key key = (case key of None \<Rightarrow> [] | Some k \<Rightarrow> if k \<noteq> [] then [k] else [])"

definition omniparser_drags :: "world \<Rightarrow> int \<Rightarrow> int \<Rightarrow> string \<Rightarrow> string option \<Rightarrow> state \<Rightarrow> (py_error + bool) \<times> state" where
  "omniparser_drags w from_id to_id button key st =
     (case ebind (getitem_str (detail st) ''compos'') py_iter of
        Inl e \<Rightarrow> (Inl e, st)
      | Inr cs \<Rightarrow>
          (case drags_loop w (detail st) from_id to_id cs (- 1, None, - 1, None) of
             Inl e \<Rightarrow> (Inl e, st)
           | Inr (from_x, from_y, to_x, to_y) \<Rightarrow>
               if from_x = - 1 \<or> to_x = - 1 then (Inr False, st)
               else
                 (case from_y of
                    None \<Rightarrow> (Inl UnboundLocalError, st\<lparr>trace := trace st @ map EvKeyDown (held_key key)\<rparr>)
                  | Some fy \<Rightarrow>
                      (case to_y of
                         None \<Rightarrow>
                           (Inl UnboundLocalError,
                            st\<lparr>trace := trace st @ map EvKeyDown (held_key key) @ [EvMoveTo from_x fy]\<rparr>)
                       | Some ty \<Rightarrow>
                           (Inr True,
                            st\<lparr>trace := trace st @ map EvKeyDown (held_key key)
                                  @ [EvMoveTo from_x fy, EvDragTo to_x ty button]
                                  @ map EvKeyUp (held_key key),
                               current_mouse_x := to_x, current_mouse_y := ty,
                               current_window := active_window w\<rparr>)))))"

section \<open>Scroll, write and key presses\<close>

text \<open>
  \<open>current_window.activate()\<close> followed by \<open>pyautogui.moveTo(current_mouse_x,
  current_mouse_y)\<close>; the attribute access raises when no window was recorded.
\<close>

definition activate_and_restore :: "state \<Rightarrow> py_error + state" where
  "activate_and_restore st =
     (case current_window st of
        None \<Rightarrow> Inl AttributeError
      | Some win \<Rightarrow>
          Inr (st\<lparr>trace := trace st @ [EvActivate win, EvMoveTo (current_mouse_x st) (current_mouse_y st)]\<rparr>))"

definition omniparser_scroll :: "int \<Rightarrow> state \<Rightarrow> (py_error + unit) \<times> state" where
  "omniparser_scroll clicks st =
     (case activate_and_restore st of
        Inl e \<Rightarrow> (Inl e, st)
      | Inr st1 \<Rightarrow> (Inr (), st1\<lparr>trace := trace st1 @ [EvScroll clicks]\<rparr>))"

text \<open>
  Lines 207 to 211: the delivery of the text.
\<close>

definition deliver :: "nat list \<Rightarrow> state \<Rightarrow> state" where
  "deliver content st =
     (if isascii content then st\<lparr>trace := trace st @ [EvWrite content]\<rparr>
      else st\<lparr>trace := trace st @ [EvCopy content, EvHotkey [''ctrl'', ''v'']]\<rparr>)"

text \<open>
  \<open>omniparser_write\<close>. For \<open>id >= 0\<close> line 203 calls \<open>autogui_click\<close>, a name that no
  scope of the module binds (the click handler is \<open>omniparser_click\<close>): evaluating it
  raises NameError.
\<close>

definition omniparser_write :: "nat list \<Rightarrow> int \<Rightarrow> state \<Rightarrow> (py_error + unit) \<times> state" where
  "omniparser_write content i st =
     (if i \<ge> 0 then (Inl NameError, st)
      else
        (case activate_and_restore st of
           Inl e \<Rightarrow> (Inl e, st)
         | Inr st1 \<Rightarrow> (Inr (), deliver content st1)))"

definition nonempty_key :: "string option \<Rightarrow> bool" where
  "nonempty_key k = (k \<noteq> None \<and> k \<noteq> Some [])"

definition omniparser_input_key :: "string \<Rightarrow> string option \<Rightarrow> string option \<Rightarrow> state \<Rightarrow> (py_error + unit) \<times> state" where
  "omniparser_input_key key1 key2 key3 st =
     (case activate_and_restore st of
        Inl e \<Rightarrow> (Inl e, st)
      | Inr st1 \<Rightarrow>
          if nonempty_key key2 \<and> nonempty_key key3 then
            (Inr (), st1\<lparr>trace := trace st1 @ [EvHotkey [key1, the key2, the key3]]\<rparr>)
          else if nonempty_key key2 then
            (Inr (), st1\<lparr>trace := trace st1 @ [EvHotkey [key1, the key2]]\<rparr>)
          else
            (Inr (), st1\<lparr>trace := trace st1 @ [EvHotkey [key1]]\<rparr>))"

section \<open>The analysis pass and the calls that wait for it\<close>

text \<open>
  \<open>str(n)\<close> for a loop index, and the text that line 88 appends. The conversion
  \<open>str\<close> of the two looked-up values is the interpreter's; it is a parameter
  (\<open>str_of\<close>) of everything below.
\<close>

fun show_nat :: "nat \<Rightarrow> string" where
  "show_nat n =
     (if n < 10 then [''0123456789'' ! n]
      else show_nat (n div 10) @ [''0123456789'' ! (n mod 10)])"

definition summary_line :: "(pyval \<Rightarrow> string) \<Rightarrow> nat \<Rightarrow> pyval \<Rightarrow> pyval \<Rightarrow> string" where
  "summary_line str_of loop ty c =
     ''ID: '' @ show_nat loop @ '', '' @ str_of ty @ '': '' @ str_of c @ [CHR 0x0A]"

text \<open>
  Lines 87 and 88. The result is the text accumulated so far and the exception that
  ended the loop, if one did.
\<close>

fun summary_loop :: "(pyval \<Rightarrow> string) \<Rightarrow> nat \<Rightarrow> pyval list \<Rightarrow> string \<Rightarrow> string \<times> py_error option" where
  "summary_loop str_of loop [] text = (text, None)"
| "summary_loop str_of loop (content # rest) text =
     (case getitem_str content ''type'' of
        Inl e \<Rightarrow> (text, Some e)
      | Inr ty \<Rightarrow>
          (case getitem_str content ''content'' of
             Inl e \<Rightarrow> (text, Some e)
           | Inr c \<Rightarrow> summary_loop str_of (Suc loop) rest (text @ summary_line str_of loop ty c)))"

definition summarise :: "(pyval \<Rightarrow> string) \<Rightarrow> pyval \<Rightarrow> string \<times> py_error option" where
  "summarise str_of d =
     (case py_iter d of
        Inl e \<Rightarrow> ([], Some e)
      | Inr cs \<Rightarrow> summary_loop str_of 0 cs [])"

text \<open>
  Lines 77 to 81: the size of the preview. \<open>resize\<close> of the imaging library refuses
  a size that is not positive with ValueError.
\<close>

definition resize_preview :: "image \<Rightarrow> py_error + image" where
  "resize_preview img =
     (let width = img_width img; height = img_height img in
      if width > height then
        (if width = 0 then Inl ZeroDivisionError
         else if INPUT_IMAGE_SIZE * height div width \<le> 0 then Inl ValueError
         else Inr (img\<lparr>img_width := INPUT_IMAGE_SIZE, img_height := INPUT_IMAGE_SIZE * height div width\<rparr>))
      else
        (if height = 0 then Inl ZeroDivisionError
         else if INPUT_IMAGE_SIZE * width div height \<le> 0 then Inl ValueError
         else Inr (img\<lparr>img_width := INPUT_IMAGE_SIZE * width div height, img_height := INPUT_IMAGE_SIZE\<rparr>)))"

text \<open>
  The body of \<open>omniparser_thread_func\<close> runs beside the request loop, so it is cut
  at its writes to the shared variables: the capture and \<open>parse_raw\<close> (lines 70 to
  72, which assign \<open>detail\<close>), the decoding and scaling of the labelled image (lines
  74 to 84, which assign \<open>result_image\<close>), and the summary (lines 86 to 90, which
  assign the owner's \<open>detail_text\<close> and \<open>is_finished\<close>). What the collaborators
  answer (a value or an exception) is the input of the step; an image, once decoded, is
  taken to be scaled and encoded without a failure of the imaging library.
\<close>

datatype thread_input =
    ParseResult "py_error + pyval"
  | DecodeResult "py_error + image"
  | RunSummary

definition set_pc :: "nat \<Rightarrow> thread_pc \<Rightarrow> state \<Rightarrow> state" where
  "set_pc tid pc s = s\<lparr>threads := (threads s)[tid := (threads s ! tid)\<lparr>t_pc := pc\<rparr>]\<rparr>"

definition set_text :: "nat \<Rightarrow> string \<Rightarrow> state \<Rightarrow> state" where
  "set_text cid text s =
     (if cid < length (frames s)
      then s\<lparr>frames := (frames s)[cid := (frames s ! cid)\<lparr>detail_text := text\<rparr>]\<rparr>
      else s)"

fun thread_body :: "(pyval \<Rightarrow> string) \<Rightarrow> nat \<Rightarrow> thread_pc \<Rightarrow> thread_input \<Rightarrow> state \<Rightarrow> state" where
  "thread_body str_of tid AtParse (ParseResult (Inl e)) s = set_pc tid (Raised e) s"
| "thread_body str_of tid AtParse (ParseResult (Inr d)) s = set_pc tid (AtImage d) (s\<lparr>detail := d\<rparr>)"
| "thread_body str_of tid (AtImage d) (DecodeResult (Inl e)) s = set_pc tid (Raised e) s"
| "thread_body str_of tid (AtImage d) (DecodeResult (Inr img)) s =
     (case resize_preview img of
        Inl e \<Rightarrow> set_pc tid (Raised e) s
      | Inr img' \<Rightarrow> set_pc tid (AtSummary d img') (s\<lparr>result_image := Some img'\<rparr>))"
| "thread_body str_of tid (AtSummary d img) RunSummary s =
     (case summarise str_of (detail s) of
        (text, Some e) \<Rightarrow> set_pc tid (Raised e) (set_text (t_owner (threads s ! tid)) text s)
      | (text, None) \<Rightarrow>
          set_pc tid (Finished d img) ((set_text (t_owner (threads s ! tid)) text s)\<lparr>is_finished := True\<rparr>))"
| "thread_body str_of tid pc inp s = s"

definition thread_step :: "(pyval \<Rightarrow> string) \<Rightarrow> nat \<Rightarrow> thread_input \<Rightarrow> state \<Rightarrow> state" where
  "thread_step str_of tid inp s =
     (if tid < length (threads s) then thread_body str_of tid (t_pc (threads s ! tid)) inp s else s)"

text \<open>
  Lines 65 and 91 to 96: a call of \<open>omniparser_details_on_screen\<close> up to its loop.
  The new frame is the last one; a thread it starts is the last thread.
\<close>

definition call_enter :: "state \<Rightarrow> state" where
  "call_enter s =
     (let cid = length (frames s);
          s1 = s\<lparr>frames := frames s @ [\<lparr>detail_text = [], returned = None\<rparr>]\<rparr>
      in if omniparser_thread s1 = None then
           s1\<lparr>result_image := None, detail := PNone, is_finished := False,
              omniparser_thread := Some (length (threads s1)),
              threads := threads s1 @ [\<lparr>t_owner = cid, t_pc = AtParse\<rparr>]\<rparr>
         else s1)"

text \<open>
  Lines 98 to 103: one test of the loop condition by the call \<open>cid\<close>. While
  \<open>is_finished\<close> is false the call sleeps and nothing changes; otherwise it clears
  \<open>omniparser_thread\<close> and returns its own \<open>detail_text\<close> with the preview.
\<close>

definition call_poll :: "nat \<Rightarrow> state \<Rightarrow> state" where
  "call_poll cid s =
     (if cid < length (frames s) \<and> returned (frames s ! cid) = None \<and> is_finished s then
        (let res = (case result_image s of
                      None \<Rightarrow> Inl AttributeError
                    | Some img \<Rightarrow> Inr (detail_text (frames s ! cid), img))
         in s\<lparr>omniparser_thread := None,
              frames := (frames s)[cid := (frames s ! cid)\<lparr>returned := Some res\<rparr>]\<rparr>)
      else s)"

datatype label =
    Enter
  | Thread nat thread_input
  | Poll nat
  | Click world int string int
  | Drags world int int string "string option"
  | MouseMove world int
  | Scroll int
  | Write "nat list" int
  | InputKey string "string option" "string option"

fun step :: "(pyval \<Rightarrow> string) \<Rightarrow> label \<Rightarrow> state \<Rightarrow> state" where
  "step str_of Enter s = call_enter s"
| "step str_of (Thread tid inp) s = thread_step str_of tid inp s"
| "step str_of (Poll cid) s = call_poll cid s"
| "step str_of (Click w i button clicks) s = snd (omniparser_click w i button clicks s)"
| "step str_of (Drags w from_id to_id button key) s = snd (omniparser_drags w from_id to_id button key s)"
| "step str_of (MouseMove w i) s = snd (omniparser_mouse_move w i s)"
| "step str_of (Scroll clicks) s = snd (omniparser_scroll clicks s)"
| "step str_of (Write content i) s = snd (omniparser_write content i s)"
| "step str_of (InputKey key1 key2 key3) s = snd (omniparser_input_key key1 key2 key3 s)"

fun run :: "(pyval \<Rightarrow> string) \<Rightarrow> label list \<Rightarrow> state \<Rightarrow> state" where
  "run str_of [] s = s"
| "run str_of (l # ls) s = run str_of ls (step str_of l s)"

text \<open>Lines 28 to 37: the state when \<open>mcp_autogui_main\<close> has registered the tools.\<close>

definition init :: "int \<Rightarrow> int \<Rightarrow> window option \<Rightarrow> state" where
  "init x y win =
     \<lparr>omniparser_thread = None, result_image = None, detail = PNone, is_finished = False,
      current_mouse_x = x, current_mouse_y = y, current_window = win,
      threads = [], frames = [], trace = []\<rparr>"

fun in_flight :: "thread_pc \<Rightarrow> bool" where
  "in_flight AtParse = True"
| "in_flight (AtImage d) = True"
| "in_flight (AtSummary d img) = True"
| "in_flight pc = False"

definition running :: "thread \<Rightarrow> bool" where
  "running t = in_flight (t_pc t)"

definition live_threads :: "state \<Rightarrow> thread list" where
  "live_threads s = filter running (threads s)"

text \<open>
  A pass is in flight while its thread has not come to an end; \<open>failed\<close> says that
  some thread ended by an exception.
\<close>

fun raised :: "thread_pc \<Rightarrow> bool" where
  "raised (Raised e) = True"
| "raised pc = False"

fun at_summary :: "thread_pc \<Rightarrow> bool" where
  "at_summary (AtSummary d img) = True"
| "at_summary pc = False"

fun completed :: "thread_pc \<Rightarrow> bool" where
  "completed (Finished d img) = True"
| "completed pc = False"

definition failed :: "state \<Rightarrow> bool" where
  "failed s = list_ex (\<lambda>t. raised (t_pc t)) (threads s)"

definition single_flight :: "state \<Rightarrow> bool" where
  "single_flight s =
     (length (live_threads s) \<le> 1
      \<and> (live_threads s \<noteq> [] \<longrightarrow> omniparser_thread s \<noteq> None \<and> \<not> is_finished s)
      \<and> (failed s \<longrightarrow> omniparser_thread s \<noteq> None \<and> \<not> is_finished s \<and> live_threads s = [])
      \<and> (is_finished s \<longrightarrow> result_image s \<noteq> None)
      \<and> (list_ex (\<lambda>t. at_summary (t_pc t)) (threads s) \<longrightarrow> result_image s \<noteq> None))"



section \<open>Analysis results of the shape the action handlers read\<close>

text \<open>
  \<open>omniparser_click\<close>, \<open>omniparser_drags\<close> and \<open>omniparser_mouse_move\<close> read
  \<open>detail['compos']\<close>, a sequence of dictionaries with an \<open>'id'\<close> and a
  \<open>'position'\<close>, and \<open>detail['img_shape']\<close>, whose first two entries are the rows and
  the columns of the analysed image. \<open>encode\<close> builds the Python value of that shape
  from typed data; further keys of an element and further entries of the shape are
  carried along.
\<close>

record bounds =
  row_min :: int
  row_max :: int
  column_min :: int
  column_max :: int

record element =
  el_id :: int
  el_bounds :: bounds
  el_extra :: "(string \<times> pyval) list"

record analysis =
  compos :: "element list"
  img_rows :: int
  img_columns :: int
  img_more :: "pyval list"

definition encode_element :: "element \<Rightarrow> pyval" where
  "encode_element e =
     PDict ([(''id'', PInt (el_id e)),
             (''position'',
              PDict [(''column_min'', PInt (column_min (el_bounds e))),
                     (''row_min'', PInt (row_min (el_bounds e))),
                     (''column_max'', PInt (column_max (el_bounds e))),
                     (''row_max'', PInt (row_max (el_bounds e)))])] @ el_extra e)"

definition encode :: "analysis \<Rightarrow> pyval" where
  "encode a =
     PDict [(''compos'', PList (map encode_element (compos a))),
            (''img_shape'', PList (PInt (img_rows a) # PInt (img_columns a) # img_more a))]"

text \<open>The point an element is mapped to: the midpoint expression, truncated.\<close>

definition point_x :: "world \<Rightarrow> analysis \<Rightarrow> element \<Rightarrow> int" where
  "point_x w a e =
     py_int (of_int ((column_min (el_bounds e) + column_max (el_bounds e)) * (screen_width w + PADDING_SIZE * 2))
             / of_int (img_columns a) / 2) - PADDING_SIZE"

definition point_y :: "world \<Rightarrow> analysis \<Rightarrow> element \<Rightarrow> int" where
  "point_y w a e =
     py_int (of_int ((row_min (el_bounds e) + row_max (el_bounds e)) * (screen_height w + PADDING_SIZE * 2))
             / of_int (img_rows a) / 2) - PADDING_SIZE"

text \<open>
  The two dividends of an element stay below \<open>2^53\<close> in absolute value. Within
  this range the float quotient has the integer part of the exact one.
\<close>

definition in_float_range :: "world \<Rightarrow> element \<Rightarrow> bool" where
  "in_float_range w e =
     (\<bar>(column_min (el_bounds e) + column_max (el_bounds e)) * (screen_width w + PADDING_SIZE * 2)\<bar> < 2 ^ 53
      \<and> \<bar>(row_min (el_bounds e) + row_max (el_bounds e)) * (screen_height w + PADDING_SIZE * 2)\<bar> < 2 ^ 53)"

text \<open>What the drag loop leaves in a pair of its locals: the point of the last match.\<close>

definition last_match :: "world \<Rightarrow> analysis \<Rightarrow> int \<Rightarrow> element list \<Rightarrow> int \<times> int option \<Rightarrow> int \<times> int option" where
  "last_match w a i es dflt =
     (case find (\<lambda>e. el_id e = i) (rev es) of
        None \<Rightarrow> dflt
      | Some e \<Rightarrow> (point_x w a e, Some (point_y w a e)))"

section \<open>Example data\<close>

definition example_world :: world where
  "example_world = \<lparr>screen_width = 1920, screen_height = 1080, active_window = Some 7\<rparr>"

definition example_element :: element where
  "example_element =
     \<lparr>el_id = 0,
      el_bounds = \<lparr>row_min = 10, row_max = 32, column_min = 100, column_max = 200\<rparr>,
      el_extra = [(''class'', PStr ''Text'')]\<rparr>"

definition example_analysis :: analysis where
  "example_analysis =
     \<lparr>compos = [example_element], img_rows = 960, img_columns = 960, img_more = [PInt 3]\<rparr>"

definition example_state :: state where
  "example_state = (init 5 6 (Some 1))\<lparr>detail := encode example_analysis\<rparr>"

text \<open>A result of the shape the summary loop reads: a list of typed, captioned items.\<close>

definition example_list :: pyval where
  "example_list = PList [PDict [(''type'', PStr ''text''), (''content'', PStr ''OK'')]]"

definition example_image :: image where
  "example_image = \<lparr>img_width = 1920, img_height = 1080, img_data = 1\<rparr>"

text \<open>\<open>str\<close> on strings, integers and None; containers are not rendered.\<close>

definition show_int :: "int \<Rightarrow> string" where
  "show_int n = (if n < 0 then CHR ''-'' # show_nat (nat (- n)) else show_nat (nat n))"

fun str_scalar :: "pyval \<Rightarrow> string" where
  "str_scalar (PStr s) = s"
| "str_scalar (PInt n) = show_int n"
| "str_scalar PNone = ''None''"
| "str_scalar v = []"

text \<open>The code points of \<open>hello\<close> and of the five hiragana of \<open>konnichiwa\<close>.\<close>

definition hello :: "nat list" where
  "hello = [104, 101, 108, 108, 111]"

definition konnichiwa :: "nat list" where
  "konnichiwa = [0x3053, 0x3093, 0x306B, 0x3061, 0x306F]"

text \<open>Three runs of the example: a pass that completes, with and without a second call
  joining it, and a pass whose \<open>parse_raw\<close> raises.\<close>

definition example_pass :: "label list" where
  "example_pass =
     [Thread 0 (ParseResult (Inr example_list)), Thread 0 (DecodeResult (Inr example_image)),
      Thread 0 RunSummary]"



definition joined_state :: state where
  "joined_state =
     run str_scalar ([Enter, Poll 0, Enter, Poll 1] @ example_pass @ [Poll 0, Poll 1]) (init 5 6 (Some 1))"

definition failing_pass :: "label list" where
  "failing_pass = [Enter, Thread 0 (ParseResult (Inl CollaboratorError))]"

definition wedged_state :: state where
  "wedged_state = run str_scalar (failing_pass @ [Poll 0, Enter, Poll 0, Poll 1]) (init 5 6 (Some 1))"

definition list_state :: state where
  "list_state = (init 5 6 (Some 1))\<lparr>detail := example_list\<rparr>"

section \<open>Auxiliary notions for the proofs\<close>

text \<open>The variables of the analysis session, which no action handler assigns.\<close>

definition session_vars :: "state \<Rightarrow> nat option \<times> image option \<times> pyval \<times> bool \<times> thread list \<times> frame list" where
  "session_vars s = (omniparser_thread s, result_image s, detail s, is_finished s, threads s, frames s)"

text \<open>A call whose closure no thread runs still has the \<open>detail_text\<close> of line 65.\<close>

definition joiners_blank :: "state \<Rightarrow> bool" where
  "joiners_blank s =
     (\<forall>cid < length (frames s). cid \<notin> t_owner ` set (threads s) \<longrightarrow> detail_text (frames s ! cid) = [])"

section \<open>The action handlers leave the session variables alone\<close>

lemma click_loop_session: "session_vars (snd (click_loop w i button clicks cs s)) = session_vars s"
  by (induction cs) (auto simp: session_vars_def split: sum.splits)

lemma move_loop_session: "session_vars (snd (move_loop w i cs s)) = session_vars s"
  by (induction cs) (auto simp: session_vars_def split: sum.splits)

lemma click_session: "session_vars (snd (omniparser_click w i button clicks s)) = session_vars s"
  by (simp add: omniparser_click_def click_loop_session split: sum.splits)

lemma move_session: "session_vars (snd (omniparser_mouse_move w i s)) = session_vars s"
  by (simp add: omniparser_mouse_move_def move_loop_session split: sum.splits)

lemma drags_session: "session_vars (snd (omniparser_drags w from_id to_id button key s)) = session_vars s"
  by (simp add: omniparser_drags_def session_vars_def split: sum.splits option.splits prod.splits)

lemma scroll_session: "session_vars (snd (omniparser_scroll clicks s)) = session_vars s"
  by (auto simp add: omniparser_scroll_def activate_and_restore_def session_vars_def split: option.splits)

lemma write_session: "session_vars (snd (omniparser_write content i s)) = session_vars s"
  by (auto simp add: omniparser_write_def activate_and_restore_def deliver_def session_vars_def split: option.splits)

lemma input_key_session: "session_vars (snd (omniparser_input_key key1 key2 key3 s)) = session_vars s"
  by (auto simp add: omniparser_input_key_def activate_and_restore_def session_vars_def split: option.splits)

section \<open>At most one pass in flight\<close>

lemma single_flight_session:
  "session_vars s' = session_vars s \<Longrightarrow> single_flight s' = single_flight s"
  by (simp add: session_vars_def single_flight_def live_threads_def failed_def)

lemma filter_update_only:
  assumes "i < length ts" "P (ts ! i)" "length (filter P ts) \<le> 1"
  shows "filter P (ts[i := t]) = (if P t then [t] else [])"
  using assms
proof (induction ts arbitrary: i)
  case Nil
  then show ?case by simp
next
  case (Cons x xs)
  show ?case
  proof (cases i)
    case 0
    with Cons.prems have "filter P xs = []" by simp
    with 0 show ?thesis by simp
  next
    case (Suc k)
    with Cons.prems have k: "k < length xs" "P (xs ! k)" by simp_all
    then have "xs ! k \<in> set (filter P xs)" by simp
    then have "filter P xs \<noteq> []" by (metis empty_iff list.set(1))
    with Cons.prems have nx: "\<not> P x" and le: "length (filter P xs) \<le> 1"
      by (auto split: if_splits simp: Suc_le_eq)
    from Cons.IH [OF k le] nx Suc show ?thesis by simp
  qed
qed

lemma running_pc: "running (t\<lparr>t_pc := pc\<rparr>) = in_flight pc"
  by (simp add: running_def)

lemma single_flight_set_pc:
  assumes inv: "single_flight s"
    and tid: "tid < length (threads s)" "running (threads s ! tid)"
    and same: "threads s1 = threads s" "omniparser_thread s1 = omniparser_thread s"
    and fin: "is_finished s1 \<Longrightarrow> completed pc \<and> result_image s1 \<noteq> None"
    and img: "at_summary pc \<Longrightarrow> result_image s1 \<noteq> None"
  shows "single_flight (set_pc tid pc s1)"
proof -
  let ?ts = "threads s"
  let ?t = "(?ts ! tid)\<lparr>t_pc := pc\<rparr>"
  from inv have le: "length (filter running ?ts) \<le> 1"
    by (simp add: single_flight_def live_threads_def)
  from tid have "?ts ! tid \<in> set (filter running ?ts)" by simp
  then have live: "live_threads s \<noteq> []"
    unfolding live_threads_def by (metis empty_iff list.set(1))
  with inv have var: "omniparser_thread s \<noteq> None" and nofail: "\<not> failed s"
    by (auto simp: single_flight_def)
  have upd: "filter running (?ts[tid := ?t]) = (if running ?t then [?t] else [])"
    by (rule filter_update_only [OF tid le])
  have thr: "threads (set_pc tid pc s1) = ?ts[tid := ?t]"
    by (simp add: set_pc_def same)
  have others: "x = ?t" if "x \<in> set (?ts[tid := ?t])" "running x \<or> raised (t_pc x)" for x
  proof -
    from that(2) show ?thesis
    proof
      assume "running x"
      with that(1) have "x \<in> set (filter running (?ts[tid := ?t]))" by simp
      with upd show ?thesis by (auto split: if_splits)
    next
      assume r: "raised (t_pc x)"
      from that(1) have "x = ?t \<or> x \<in> set ?ts"
        using set_update_subset_insert [of ?ts tid ?t] by auto
      moreover have "x \<notin> set ?ts"
        using r nofail by (auto simp: failed_def list_ex_iff)
      ultimately show ?thesis by simp
    qed
  qed
  have c1: "length (live_threads (set_pc tid pc s1)) \<le> 1"
    by (simp add: live_threads_def thr upd)
  have c2: "omniparser_thread (set_pc tid pc s1) \<noteq> None \<and> \<not> is_finished (set_pc tid pc s1)"
    if "live_threads (set_pc tid pc s1) \<noteq> []"
  proof -
    from that have "running ?t" by (simp add: live_threads_def thr upd split: if_splits)
    then have "\<not> completed pc" by (cases pc) (simp_all add: running_pc)
    with fin have "\<not> is_finished s1" by blast
    with var show ?thesis by (simp add: set_pc_def same)
  qed
  have c3: "omniparser_thread (set_pc tid pc s1) \<noteq> None \<and> \<not> is_finished (set_pc tid pc s1)
              \<and> live_threads (set_pc tid pc s1) = []"
    if "failed (set_pc tid pc s1)"
  proof -
    from that obtain x where "x \<in> set (?ts[tid := ?t])" "raised (t_pc x)"
      by (auto simp: failed_def list_ex_iff thr)
    with others have "raised (t_pc ?t)" by blast
    then have r: "raised pc" by simp
    then have "\<not> completed pc" "\<not> running ?t" by (cases pc; simp add: running_pc)+
    with upd have "live_threads (set_pc tid pc s1) = []"
      by (simp add: live_threads_def thr)
    moreover from fin \<open>\<not> completed pc\<close> have "\<not> is_finished s1" by blast
    ultimately show ?thesis using var by (simp add: set_pc_def same)
  qed
  have c4: "result_image (set_pc tid pc s1) \<noteq> None" if "is_finished (set_pc tid pc s1)"
    using that fin by (simp add: set_pc_def)
  have c5: "result_image (set_pc tid pc s1) \<noteq> None"
    if "list_ex (\<lambda>t. at_summary (t_pc t)) (threads (set_pc tid pc s1))"
  proof -
    from that obtain x where x: "x \<in> set (?ts[tid := ?t])" "at_summary (t_pc x)"
      by (auto simp: list_ex_iff thr)
    then have "running x" by (cases "t_pc x") (simp_all add: running_def)
    with x others have "x = ?t" by blast
    with x have "at_summary pc" by simp
    with img show ?thesis by (simp add: set_pc_def)
  qed
  from c1 c2 c3 c4 c5 show ?thesis
    unfolding single_flight_def by blast
qed

lemma set_text_fields [simp]:
  "threads (set_text cid text s) = threads s"
  "omniparser_thread (set_text cid text s) = omniparser_thread s"
  "is_finished (set_text cid text s) = is_finished s"
  "result_image (set_text cid text s) = result_image s"
  "detail (set_text cid text s) = detail s"
  by (simp_all add: set_text_def)

lemma single_flight_not_finished:
  "single_flight s \<Longrightarrow> tid < length (threads s) \<Longrightarrow> running (threads s ! tid) \<Longrightarrow> \<not> is_finished s"
  unfolding single_flight_def live_threads_def
  by (metis filter_empty_conv nth_mem)

lemma single_flight_at_summary:
  "single_flight s \<Longrightarrow> tid < length (threads s) \<Longrightarrow> at_summary (t_pc (threads s ! tid))
     \<Longrightarrow> result_image s \<noteq> None"
  unfolding single_flight_def list_ex_iff
  by (metis nth_mem)

lemma sf_raise:
  "single_flight s \<Longrightarrow> tid < length (threads s) \<Longrightarrow> running (threads s ! tid)
     \<Longrightarrow> single_flight (set_pc tid (Raised e) s)"
  by (rule single_flight_set_pc) (simp_all add: single_flight_not_finished)

lemma sf_parse:
  "single_flight s \<Longrightarrow> tid < length (threads s) \<Longrightarrow> running (threads s ! tid)
     \<Longrightarrow> single_flight (set_pc tid (AtImage d) (s\<lparr>detail := d'\<rparr>))"
  by (rule single_flight_set_pc [where s = s]) (simp_all add: single_flight_not_finished)

lemma sf_decode:
  "single_flight s \<Longrightarrow> tid < length (threads s) \<Longrightarrow> running (threads s ! tid)
     \<Longrightarrow> single_flight (set_pc tid (AtSummary d img') (s\<lparr>result_image := Some img\<rparr>))"
  by (rule single_flight_set_pc [where s = s]) (simp_all add: single_flight_not_finished)

lemma sf_summary_raise:
  "single_flight s \<Longrightarrow> tid < length (threads s) \<Longrightarrow> running (threads s ! tid)
     \<Longrightarrow> single_flight (set_pc tid (Raised e) (set_text cid text s))"
  by (rule single_flight_set_pc [where s = s]) (simp_all add: single_flight_not_finished)

lemma sf_summary_done:
  "single_flight s \<Longrightarrow> tid < length (threads s) \<Longrightarrow> t_pc (threads s ! tid) = AtSummary d img
     \<Longrightarrow> single_flight (set_pc tid (Finished d' img') ((set_text cid text s)\<lparr>is_finished := True\<rparr>))"
  by (rule single_flight_set_pc [where s = s])
     (simp_all add: single_flight_at_summary running_def)

lemma single_flight_thread_body:
  assumes inv: "single_flight s" and tid: "tid < length (threads s)"
  shows "single_flight (thread_body str_of tid (t_pc (threads s ! tid)) inp s)"
proof (cases "t_pc (threads s ! tid)")
  case AtParse
  then have r: "running (threads s ! tid)" by (simp add: running_def)
  show ?thesis
  proof (cases inp)
    case (ParseResult res)
    then show ?thesis using AtParse inv tid r
      by (cases res) (simp_all add: sf_raise sf_parse)
  qed (simp_all add: AtParse inv)
next
  case (AtImage d)
  then have r: "running (threads s ! tid)" by (simp add: running_def)
  show ?thesis
  proof (cases inp)
    case (DecodeResult res)
    then show ?thesis using AtImage inv tid r
      by (cases res) (simp_all add: sf_raise sf_decode split: sum.splits)
  qed (simp_all add: AtImage inv)
next
  case (AtSummary d img)
  then have r: "running (threads s ! tid)" by (simp add: running_def)
  show ?thesis
  proof (cases inp)
    case RunSummary
    then show ?thesis using AtSummary inv tid r
      by (simp add: sf_summary_raise sf_summary_done split: prod.splits option.splits)
  qed (simp_all add: AtSummary inv)
next
  case (Finished d img)
  then show ?thesis using inv by (cases inp) simp_all
next
  case (Raised e)
  then show ?thesis using inv by (cases inp) simp_all
qed

lemma single_flight_thread_step: "single_flight s \<Longrightarrow> single_flight (thread_step str_of tid inp s)"
  by (simp add: thread_step_def single_flight_thread_body)

lemma at_summary_live: "list_ex (\<lambda>t. at_summary (t_pc t)) ts \<Longrightarrow> filter running ts \<noteq> []"
proof -
  assume "list_ex (\<lambda>t. at_summary (t_pc t)) ts"
  then obtain t where t: "t \<in> set ts" "at_summary (t_pc t)" by (auto simp: list_ex_iff)
  then have "running t" by (cases "t_pc t") (simp_all add: running_def)
  with t show ?thesis by (auto simp: filter_empty_conv)
qed

lemma single_flight_enter:
  assumes "single_flight s"
  shows "single_flight (call_enter s)"
proof (cases "omniparser_thread s")
  case None
  with assms have l: "filter running (threads s) = []"
    and f: "\<not> list_ex (\<lambda>t. raised (t_pc t)) (threads s)"
    by (auto simp: single_flight_def live_threads_def failed_def)
  from l have a: "\<not> list_ex (\<lambda>t. at_summary (t_pc t)) (threads s)"
    using at_summary_live by blast
  show ?thesis using None l f a
    by (simp add: single_flight_def call_enter_def Let_def live_threads_def failed_def running_def)
next
  case (Some n)
  with assms show ?thesis
    by (simp add: single_flight_def call_enter_def Let_def live_threads_def failed_def)
qed

lemma single_flight_poll: "single_flight s \<Longrightarrow> single_flight (call_poll cid s)"
  by (auto simp: single_flight_def call_poll_def Let_def live_threads_def failed_def)

lemma single_flight_init: "single_flight (init x y win)"
  by (simp add: single_flight_def init_def live_threads_def failed_def)

lemmas single_flight_actions =
  single_flight_session [OF click_session] single_flight_session [OF move_session]
  single_flight_session [OF drags_session] single_flight_session [OF scroll_session]
  single_flight_session [OF write_session] single_flight_session [OF input_key_session]

lemma single_flight_step: "single_flight s \<Longrightarrow> single_flight (step str_of l s)"
  by (cases l)
     (simp_all add: single_flight_enter single_flight_poll single_flight_thread_step
        single_flight_actions)

lemma single_flight_run: "single_flight s \<Longrightarrow> single_flight (run str_of ls s)"
  by (induction ls arbitrary: s) (simp_all add: single_flight_step)

lemma run_append: "run str_of (ls @ ls') s = run str_of ls' (run str_of ls s)"
  by (induction ls arbitrary: s) simp_all

lemma thread_body_ended:
  "\<not> running (threads s ! tid) \<Longrightarrow> thread_body str_of tid (t_pc (threads s ! tid)) inp s = s"
  by (cases "t_pc (threads s ! tid)"; cases inp) (simp_all add: running_def)

text \<open>
  Claim C4. In every state the session can reach, at most one background thread is in
  flight; and a call of \<open>omniparser_details_on_screen\<close> that arrives while one is in
  flight starts no thread and changes nothing but its own new frame: its first test of
  \<open>is_finished\<close> finds the flag unset, so it waits.
\<close>

theorem at_most_one_pass:
  "let s = run str_of ls (init x y win) in
     length (live_threads s) \<le> 1
     \<and> (live_threads s \<noteq> [] \<longrightarrow>
          call_enter s = s\<lparr>frames := frames s @ [\<lparr>detail_text = [], returned = None\<rparr>]\<rparr>
          \<and> call_poll (length (frames s)) (call_enter s) = call_enter s)"
proof -
  let ?s = "run str_of ls (init x y win)"
  have inv: "single_flight ?s" by (rule single_flight_run [OF single_flight_init])
  then have one: "length (live_threads ?s) \<le> 1" by (simp add: single_flight_def)
  have join: "call_enter ?s = ?s\<lparr>frames := frames ?s @ [\<lparr>detail_text = [], returned = None\<rparr>]\<rparr>
              \<and> call_poll (length (frames ?s)) (call_enter ?s) = call_enter ?s"
    if "live_threads ?s \<noteq> []"
  proof -
    from inv that have "omniparser_thread ?s \<noteq> None" "\<not> is_finished ?s"
      by (auto simp: single_flight_def)
    then show ?thesis by (auto simp: call_enter_def call_poll_def Let_def)
  qed
  from one join show ?thesis unfolding Let_def by blast
qed

theorem at_most_one_pass_witness:
  "live_threads (run str_scalar [Enter] (init 5 6 (Some 1))) \<noteq> []
   \<and> call_enter (run str_scalar [Enter] (init 5 6 (Some 1))) =
       (run str_scalar [Enter] (init 5 6 (Some 1)))
         \<lparr>frames := frames (run str_scalar [Enter] (init 5 6 (Some 1)))
                     @ [\<lparr>detail_text = [], returned = None\<rparr>]\<rparr>"
proof -
  have h: "live_threads (run str_scalar [Enter] (init 5 6 (Some 1))) \<noteq> []"
    by (simp add: call_enter_def init_def Let_def live_threads_def running_def)
  from at_most_one_pass [of str_scalar "[Enter]" 5 6 "Some 1"] h
  show ?thesis unfolding Let_def by blast
qed

section \<open>A pass that raises\<close>

lemma failed_step_threads:
  assumes "single_flight s" "failed s"
  shows "threads (step str_of l s) = threads s"
proof -
  from assms have var: "omniparser_thread s \<noteq> None" and nf: "\<not> is_finished s"
    and live: "filter running (threads s) = []"
    by (auto simp: single_flight_def live_threads_def)
  from live have dead: "\<not> running (threads s ! tid)" if "tid < length (threads s)" for tid
    using that by (simp add: filter_empty_conv)
  show ?thesis
  proof (cases l)
    case Enter
    then show ?thesis using var by (auto simp: call_enter_def Let_def)
  next
    case (Thread tid inp)
    then show ?thesis using dead [of tid] by (simp add: thread_step_def thread_body_ended)
  next
    case (Poll cid)
    then show ?thesis using nf by (simp add: call_poll_def)
  next
    case (Click w i button clicks)
    then show ?thesis using click_session [of w i button clicks s] by (simp add: session_vars_def)
  next
    case (Drags w from_id to_id button key)
    then show ?thesis using drags_session [of w from_id to_id button key s] by (simp add: session_vars_def)
  next
    case (MouseMove w i)
    then show ?thesis using move_session [of w i s] by (simp add: session_vars_def)
  next
    case (Scroll clicks)
    then show ?thesis using scroll_session [of clicks s] by (simp add: session_vars_def)
  next
    case (Write content i)
    then show ?thesis using write_session [of content i s] by (simp add: session_vars_def)
  next
    case (InputKey key1 key2 key3)
    then show ?thesis using input_key_session [of key1 key2 key3 s] by (simp add: session_vars_def)
  qed
qed

lemma failed_run_threads:
  "single_flight s \<Longrightarrow> failed s \<Longrightarrow> threads (run str_of ls s) = threads s"
proof (induction ls arbitrary: s)
  case Nil
  show ?case by simp
next
  case (Cons l ls)
  have t: "threads (step str_of l s) = threads s"
    by (rule failed_step_threads [OF Cons.prems])
  with Cons.prems have "failed (step str_of l s)" by (simp add: failed_def)
  with Cons.IH [OF single_flight_step [OF Cons.prems(1)]] t show ?case by simp
qed

text \<open>
  Claim C3. Once a background thread has ended by an exception, nothing clears the
  session: through every continuation \<open>is_finished\<close> stays false and
  \<open>omniparser_thread\<close> stays set, no further thread is started (not even by a new
  call), and every test of the flag by any call finds it unset, so no call returns and
  none is told of the failure. Running the analysis again does not continue.
\<close>

theorem failed_pass_wedges:
  assumes "failed (run str_of ls (init x y win))"
  shows "let s = run str_of (ls @ ls') (init x y win) in
           failed s \<and> \<not> is_finished s \<and> omniparser_thread s \<noteq> None
           \<and> threads s = threads (run str_of ls (init x y win))
           \<and> threads (call_enter s) = threads s
           \<and> (\<forall>cid. call_poll cid s = s)"
proof -
  let ?a = "run str_of ls (init x y win)"
  let ?s = "run str_of (ls @ ls') (init x y win)"
  have inv0: "single_flight ?a" by (rule single_flight_run [OF single_flight_init])
  have inv: "single_flight ?s" by (rule single_flight_run [OF single_flight_init])
  have thr: "threads ?s = threads ?a"
    by (simp add: run_append failed_run_threads [OF inv0 assms])
  with assms have f: "failed ?s" by (simp add: failed_def)
  with inv have var: "omniparser_thread ?s \<noteq> None" and nf: "\<not> is_finished ?s"
    by (auto simp: single_flight_def)
  from var have "threads (call_enter ?s) = threads ?s" by (auto simp: call_enter_def Let_def)
  moreover from nf have "\<forall>cid. call_poll cid ?s = ?s" by (simp add: call_poll_def)
  ultimately show ?thesis using f var nf thr by (simp add: Let_def)
qed

lemmas run_defs =
  call_enter_def call_poll_def thread_step_def set_pc_def set_text_def init_def Let_def
  resize_preview_def INPUT_IMAGE_SIZE_def example_image_def example_pass_def

theorem failed_pass_wedges_witness:
  "failed (run str_scalar failing_pass (init 5 6 (Some 1)))
   \<and> \<not> is_finished (run str_scalar (failing_pass @ [Poll 0, Enter, Poll 0, Poll 1]) (init 5 6 (Some 1)))
   \<and> omniparser_thread (run str_scalar (failing_pass @ [Poll 0, Enter, Poll 0, Poll 1]) (init 5 6 (Some 1)))
       \<noteq> None"
proof -
  have h: "failed (run str_scalar failing_pass (init 5 6 (Some 1)))"
    by (simp add: run_defs failed_def failing_pass_def)
  from failed_pass_wedges [OF h, of "[Poll 0, Enter, Poll 0, Poll 1]"] h
  show ?thesis by (simp add: Let_def)
qed

text \<open>
  On the run in which \<open>parse_raw\<close> raises, the flag is unset afterwards, the thread
  handle is still there, and neither the call that started the pass nor a later one has
  returned anything.
\<close>

lemma failed_pass_example:
  "\<not> is_finished wedged_state \<and> omniparser_thread wedged_state = Some 0
   \<and> map t_pc (threads wedged_state) = [Raised CollaboratorError]
   \<and> map returned (frames wedged_state) = [None, None]"
  by (simp add: wedged_state_def failing_pass_def run_defs)

section \<open>What the registry holds\<close>


















lemma show_nat_0: "show_nat 0 = ''0''"
  by (simp add: show_nat.simps [of 0])

lemma example_summary:
  "summarise str_scalar example_list = (''ID: 0, text: OK'' @ [CHR 0x0A], None)"
  by (simp add: summarise_def example_list_def summary_line_def show_nat_0)




section \<open>Calls that join a pass\<close>

lemma joiners_blank_session:
  "session_vars s' = session_vars s \<Longrightarrow> joiners_blank s' = joiners_blank s"
  by (simp add: session_vars_def joiners_blank_def)

lemmas joiners_blank_actions =
  joiners_blank_session [OF click_session] joiners_blank_session [OF move_session]
  joiners_blank_session [OF drags_session] joiners_blank_session [OF scroll_session]
  joiners_blank_session [OF write_session] joiners_blank_session [OF input_key_session]

lemma joiners_blank_enter: "joiners_blank s \<Longrightarrow> joiners_blank (call_enter s)"
  by (auto simp: joiners_blank_def call_enter_def Let_def nth_append less_Suc_eq)

lemma joiners_blank_poll: "joiners_blank s \<Longrightarrow> joiners_blank (call_poll cid s)"
  by (auto simp: joiners_blank_def call_poll_def Let_def nth_list_update)

lemma owners_set_pc:
  "tid < length (threads s) \<Longrightarrow> t_owner ` set (threads (set_pc tid pc s)) = t_owner ` set (threads s)"
proof -
  assume tid: "tid < length (threads s)"
  have "map t_owner ((threads s)[tid := (threads s ! tid)\<lparr>t_pc := pc\<rparr>]) = map t_owner (threads s)"
    using tid by (simp add: map_update list_update_same_conv)
  then have "set (map t_owner (threads (set_pc tid pc s))) = set (map t_owner (threads s))"
    by (simp add: set_pc_def)
  then show ?thesis by simp
qed

lemma joiners_blank_set_pc:
  "tid < length (threads s) \<Longrightarrow> joiners_blank (set_pc tid pc s) = joiners_blank s"
  using owners_set_pc [of tid s pc] by (simp add: joiners_blank_def) (simp add: set_pc_def)

lemma joiners_blank_set_text:
  "joiners_blank s \<Longrightarrow> tid < length (threads s)
     \<Longrightarrow> joiners_blank (set_text (t_owner (threads s ! tid)) text s)"
  by (auto simp: joiners_blank_def set_text_def nth_list_update)

lemma joiners_blank_field:
  "joiners_blank (s\<lparr>detail := d\<rparr>) = joiners_blank s"
  "joiners_blank (s\<lparr>result_image := r\<rparr>) = joiners_blank s"
  "joiners_blank (s\<lparr>is_finished := b\<rparr>) = joiners_blank s"
  by (simp_all add: joiners_blank_def)

lemma joiners_blank_thread_body:
  assumes "joiners_blank s" "tid < length (threads s)"
  shows "joiners_blank (thread_body str_of tid pc inp s)"
  using assms
  by (cases "(str_of, tid, pc, inp, s)" rule: thread_body.cases)
     (auto simp: joiners_blank_set_pc joiners_blank_field joiners_blank_set_text
        split: sum.splits prod.splits option.splits)

lemma joiners_blank_step: "joiners_blank s \<Longrightarrow> joiners_blank (step str_of l s)"
  by (cases l)
     (simp_all add: joiners_blank_enter joiners_blank_poll joiners_blank_thread_body
        thread_step_def joiners_blank_actions)

lemma joiners_blank_run: "joiners_blank s \<Longrightarrow> joiners_blank (run str_of ls s)"
  by (induction ls arbitrary: s) (simp_all add: joiners_blank_step)

lemma joined_call_text_empty:
  assumes "cid < length (frames (run str_of ls (init x y win)))"
    and "cid \<notin> t_owner ` set (threads (run str_of ls (init x y win)))"
  shows "detail_text (frames (run str_of ls (init x y win)) ! cid) = []"
proof -
  have "joiners_blank (init x y win)" by (simp add: joiners_blank_def init_def)
  then have "joiners_blank (run str_of ls (init x y win))" by (rule joiners_blank_run)
  with assms show ?thesis by (simp add: joiners_blank_def)
qed

text \<open>
  Claim C7. Two calls wait for the same pass; the pass completes with one detected
  item. The call that started the pass returns the summary line, the call that joined
  it returns the empty string, each with the same preview image.
\<close>

theorem joined_call_gets_empty_summary:
  "map returned (frames joined_state)
     = [Some (Inr (''ID: 0, text: OK'' @ [CHR 0x0A], \<lparr>img_width = 960, img_height = 540, img_data = 1\<rparr>)),
        Some (Inr ([], \<lparr>img_width = 960, img_height = 540, img_data = 1\<rparr>))]"
  by (simp add: joined_state_def run_defs example_summary)

section \<open>The float quotient and its integer part\<close>

lemma rhe_cases: "round_half_even x = \<lfloor>x\<rfloor> \<or> round_half_even x = \<lfloor>x\<rfloor> + 1 \<and> 1 / 2 \<le> x - of_int \<lfloor>x\<rfloor>"
  by (auto simp: round_half_even_def)

lemma rhe_ge: "of_int c \<le> x \<Longrightarrow> c \<le> round_half_even x"
proof -
  assume "of_int c \<le> x"
  then have "c \<le> \<lfloor>x\<rfloor>" by (simp add: le_floor_iff)
  with rhe_cases [of x] show ?thesis by linarith
qed

lemma rhe_le: "x \<le> of_int c \<Longrightarrow> round_half_even x \<le> c"
proof -
  assume h: "x \<le> of_int c"
  from rhe_cases [of x] show ?thesis
  proof
    assume "round_half_even x = \<lfloor>x\<rfloor>"
    moreover from h have "\<lfloor>x\<rfloor> \<le> c" by (metis floor_mono floor_of_int)
    ultimately show ?thesis by simp
  next
    assume a: "round_half_even x = \<lfloor>x\<rfloor> + 1 \<and> 1 / 2 \<le> x - of_int \<lfloor>x\<rfloor>"
    then have "of_int \<lfloor>x\<rfloor> < x" by linarith
    with h have "(of_int \<lfloor>x\<rfloor> :: rat) < of_int c" by linarith
    then have "\<lfloor>x\<rfloor> < c" by simp
    with a show ?thesis by simp
  qed
qed

lemma rhe_upper: "of_int (round_half_even x) \<le> x + 1 / 2"
  using rhe_cases [of x] by (auto; linarith)

lemma binade_bounds:
  assumes "0 < a" "0 < b"
  shows "2 powi (binade a b) * of_int b \<le> (of_int a :: rat)"
    and "(of_int a :: rat) < 2 powi (binade a b + 1) * of_int b"
proof -
  let ?la = "bitlen a" and ?lb = "bitlen b"
  let ?l = "?la - ?lb"
  from bitlen_bounds [OF assms(1)] have a1: "(2::int) ^ nat (?la - 1) \<le> a" and a2: "a < 2 ^ nat ?la"
    by simp_all
  from bitlen_bounds [OF assms(2)] have b1: "(2::int) ^ nat (?lb - 1) \<le> b" and b2: "b < 2 ^ nat ?lb"
    by simp_all
  have la: "1 \<le> ?la" and lb: "1 \<le> ?lb"
    using assms bitlen_eq_zero_iff [of a] bitlen_eq_zero_iff [of b] bitlen_nonneg [of a] bitlen_nonneg [of b]
    by linarith+
  have A1: "(2::rat) powi (?la - 1) \<le> of_int a"
  proof -
    have "(of_int ((2::int) ^ nat (?la - 1)) :: rat) \<le> of_int a" using a1 by (simp only: of_int_le_iff)
    then show ?thesis using la by (simp add: power_int_nonneg_exp)
  qed
  have A2: "(of_int a :: rat) < 2 powi ?la"
  proof -
    have "(of_int a :: rat) < of_int ((2::int) ^ nat ?la)" using a2 by (simp only: of_int_less_iff)
    then show ?thesis using la by (simp add: power_int_nonneg_exp)
  qed
  have B1: "(2::rat) powi (?lb - 1) \<le> of_int b"
  proof -
    have "(of_int ((2::int) ^ nat (?lb - 1)) :: rat) \<le> of_int b" using b1 by (simp only: of_int_le_iff)
    then show ?thesis using lb by (simp add: power_int_nonneg_exp)
  qed
  have B2: "(of_int b :: rat) < 2 powi ?lb"
  proof -
    have "(of_int b :: rat) < of_int ((2::int) ^ nat ?lb)" using b2 by (simp only: of_int_less_iff)
    then show ?thesis using lb by (simp add: power_int_nonneg_exp)
  qed
  have lo: "(2::rat) powi (?l - 1) * of_int b < of_int a"
  proof -
    have "(2::rat) powi (?l - 1) * of_int b < 2 powi (?l - 1) * 2 powi ?lb"
      using B2 by (simp add: mult_strict_left_mono)
    also have "\<dots> = 2 powi (?la - 1)"
      by (simp add: power_int_add [symmetric])
    also have "\<dots> \<le> of_int a" by (rule A1)
    finally show ?thesis .
  qed
  have hi: "(of_int a :: rat) < 2 powi (?l + 1) * of_int b"
  proof -
    have "(of_int a :: rat) < 2 powi ?la" by (rule A2)
    also have "\<dots> = 2 powi (?l + 1) * 2 powi (?lb - 1)"
      by (simp add: power_int_add [symmetric])
    also have "\<dots> \<le> 2 powi (?l + 1) * of_int b"
      using B1 by (simp add: mult_left_mono)
    finally show ?thesis .
  qed
  show "2 powi (binade a b) * of_int b \<le> (of_int a :: rat)"
    using lo by (auto simp: binade_def Let_def)
  show "(of_int a :: rat) < 2 powi (binade a b + 1) * of_int b"
    using hi by (auto simp: binade_def Let_def not_le)
qed


lemma py_int_nonneg: "0 \<le> q \<Longrightarrow> py_int q = \<lfloor>q\<rfloor>"
  by (simp add: py_int_def)

lemma py_int_minus: "py_int (- q) = - py_int q"
  by (auto simp: py_int_def ceiling_def) 

lemma powi_nonpos: "e \<le> 0 \<Longrightarrow> (2::rat) powi e = 1 / of_int (2 ^ nat (- e))"
proof -
  assume e: "e \<le> 0"
  have "(2::rat) powi e = 2 powi (- (- e))" by simp
  also have "\<dots> = 1 / 2 powi (- e)" by (rule power_int_minus_divide)
  also have "(2::rat) powi (- e) = 2 ^ nat (- e)" using e by (simp add: power_int_nonneg_exp)
  finally show ?thesis by simp
qed

text \<open>The rounded quotient of positive integers, the dividend below \<open>2^53\<close>.\<close>

lemma round_quotient_shape:
  assumes "0 < a" "0 < b" "a < 2 ^ 53"
  obtains e where "e \<le> 0" "- 1074 \<le> e"
    "round_quotient a b = (round_half_even (of_int a / of_int b * of_int (2 ^ nat (- e))), e)"
    "b \<le> a \<Longrightarrow> b < 2 * 2 ^ nat (- e) \<and> - 1074 < e"
proof -
  let ?t = "binade a b"
  let ?e = "max (?t - 52) (- 1074)"
  from binade_bounds [OF assms(1,2)]
  have lo: "2 powi ?t * of_int b \<le> (of_int a :: rat)"
    and hi: "(of_int a :: rat) < 2 powi (?t + 1) * of_int b" by simp_all
  have bpos: "(0::rat) < of_int b" using assms by simp
  have "(of_int a :: rat) < 2 ^ 53" using assms(3) by (metis of_int_less_iff of_int_numeral of_int_power)
  also have "\<dots> \<le> 2 ^ 53 * of_int b"
    using assms(2) by simp
  finally have "2 powi ?t * of_int b < (2 powi 53) * (of_int b :: rat)" using lo by simp
  with bpos have "(2::rat) powi ?t < 2 powi 53" by (simp only: mult_less_cancel_right_pos)
  then have t53: "?t < 53" by (rule power_int_le_imp_less_exp [rotated]) simp_all
  then have e0: "?e \<le> 0" by simp
  have e1: "- 1074 \<le> ?e" by simp
  have pw: "(2::rat) powi ?e = 1 / of_int (2 ^ nat (- ?e))"
    using e0 by (rule powi_nonpos)
  have rq: "round_quotient a b = (round_half_even (of_int a / of_int b * of_int (2 ^ nat (- ?e))), ?e)"
    using assms(1) by (simp add: round_quotient_def Let_def pw del: max.bounded_iff)
  have big: "b < 2 * 2 ^ nat (- ?e) \<and> - 1074 < ?e" if "b \<le> a"
  proof -
    from that have "(of_int b :: rat) \<le> of_int a" by simp
    with hi have "(1::rat) * of_int b < 2 powi (?t + 1) * of_int b" by simp
    with bpos have one: "(1::rat) < 2 powi (?t + 1)" by (simp only: mult_less_cancel_right_pos)
    have "0 < ?t + 1"
    proof (rule ccontr)
      assume "\<not> 0 < ?t + 1"
      then have "?t + 1 \<le> 0" by simp
      then have "(2::rat) powi (?t + 1) \<le> 2 powi 0" by (rule power_int_increasing) simp
      with one show False by simp
    qed
    then have t0: "0 \<le> ?t" by simp
    then have e: "?e = ?t - 52" by simp
    have "(of_int a :: rat) < 2 ^ 53" using assms(3) by (metis of_int_less_iff of_int_numeral of_int_power)
    with lo have A: "2 powi ?t * of_int b < (2::rat) ^ 53" by (rule le_less_trans)
    have B: "(2::rat) ^ 53 = 2 powi ?t * (2 * 2 ^ nat (52 - ?t))"
    proof -
      have "(2::rat) powi ?t * (2 * 2 ^ nat (52 - ?t)) = 2 powi ?t * 2 powi (53 - ?t)"
        using t53 t0 by (simp add: power_int_def nat_diff_distrib Suc_diff_le flip: power_Suc)
      also have "\<dots> = 2 powi 53" by (simp flip: power_int_add)
      also have "\<dots> = (2::rat) ^ 53" by (simp only: power_int_numeral)
      finally show ?thesis by (rule sym)
    qed
    from A have "(2::rat) powi ?t * of_int b < 2 powi ?t * (2 * 2 ^ nat (52 - ?t))"
      by (simp only: B [symmetric])
    then have "(of_int b :: rat) < 2 * 2 ^ nat (52 - ?t)" by (simp only: mult_less_cancel_left_pos zero_less_power_int zero_less_numeral)
    then have "(of_int b :: rat) < of_int (2 * 2 ^ nat (52 - ?t))" by simp
    then have "b < 2 * 2 ^ nat (52 - ?t)" by (simp only: of_int_less_iff)
    with e t0 show ?thesis by simp
  qed
  from e0 e1 rq big show ?thesis by (rule that)
qed


lemma float_val_nonpos_exp:
  "e \<le> 0 \<Longrightarrow> float_val (m, e) = of_int m / of_int (2 ^ nat (- e))"
  by (simp add: float_val_def powi_nonpos)

lemma float_val_half:
  "- 1074 < e \<Longrightarrow> float_val (float_half (m, e)) = float_val (m, e) / 2"
proof -
  have "(2::rat) powi (e - 1) = 2 powi e / 2"
    by (simp add: power_int_diff)
  then show "- 1074 < e \<Longrightarrow> float_val (float_half (m, e)) = float_val (m, e) / 2"
    by (simp add: float_half_def float_val_def)
qed

lemma trunc_quotient_pos:
  assumes "0 < a" "0 < b" "a < 2 ^ 53"
  shows "py_int (float_val (float_half (round_quotient a b))) = \<lfloor>(of_int a :: rat) / of_int b / 2\<rfloor>"
    and "0 \<le> float_val (round_quotient a b)"
    and "float_val (round_quotient a b) \<le> 2 ^ 53"
proof -
  from assms obtain e where e: "e \<le> 0" "- 1074 \<le> e"
    and rq: "round_quotient a b = (round_half_even (of_int a / of_int b * of_int (2 ^ nat (- e))), e)"
    and big: "b \<le> a \<longrightarrow> b < 2 * 2 ^ nat (- e) \<and> - 1074 < e"
    by (rule round_quotient_shape) blast
  define s :: int where "s = 2 ^ nat (- e)"
  define x :: rat where "x = of_int a / of_int b"
  define m where "m = round_half_even (x * of_int s)"
  have spos: "0 < s" by (simp add: s_def)
  then have sr: "(0::rat) < of_int s" by simp
  have bpos: "(0::rat) < of_int b" using assms by simp
  have f: "round_quotient a b = (m, e)" by (simp add: rq m_def x_def s_def)
  have v: "float_val (m, e) = of_int m / of_int s"
    using e by (simp add: float_val_nonpos_exp s_def)
  have xpos: "0 < x" using assms by (simp add: x_def)
  have lower: "of_int c \<le> float_val (m, e)" if "of_int c \<le> x" for c
  proof -
    from that sr have "of_int c * of_int s \<le> x * of_int s" by (simp add: mult_right_mono)
    then have "of_int (c * s) \<le> x * of_int s" by simp
    then have "c * s \<le> m" unfolding m_def by (rule rhe_ge)
    then have "(of_int (c * s) :: rat) \<le> of_int m" by (simp only: of_int_le_iff)
    then have "(of_int c :: rat) * of_int s \<le> of_int m" by simp
    with sr show ?thesis by (simp add: v pos_le_divide_eq)
  qed
  have upper: "float_val (m, e) \<le> of_int c" if "x \<le> of_int c" for c
  proof -
    from that sr have "x * of_int s \<le> of_int c * of_int s" by (simp add: mult_right_mono)
    then have "x * of_int s \<le> of_int (c * s)" by simp
    then have "m \<le> c * s" unfolding m_def by (rule rhe_le)
    then have "(of_int m :: rat) \<le> of_int (c * s)" by (simp only: of_int_le_iff)
    then have "(of_int m :: rat) \<le> of_int c * of_int s" by simp
    with sr show ?thesis by (simp add: v pos_divide_le_eq)
  qed
  have "of_int 0 \<le> x" using xpos by simp
  from lower [OF this] show "0 \<le> float_val (round_quotient a b)" by (simp add: f)
  have "x \<le> of_int a"
  proof -
    have "(1::rat) \<le> of_int b" using assms(2) by simp
    moreover have "(0::rat) \<le> of_int a" using assms(1) by simp
    ultimately have "(of_int a :: rat) / of_int b \<le> of_int a / 1"
      by (intro divide_left_mono) simp_all
    then show ?thesis by (simp add: x_def)
  qed
  also have "(of_int a :: rat) \<le> of_int (2 ^ 53)" using assms(3) by (simp only: of_int_le_iff)
  finally have "x \<le> of_int (2 ^ 53)" .
  from upper [OF this] show "float_val (round_quotient a b) \<le> 2 ^ 53" by (simp add: f)
  show "py_int (float_val (float_half (round_quotient a b))) = \<lfloor>(of_int a :: rat) / of_int b / 2\<rfloor>"
  proof (cases "b \<le> a")
    case True
    with big have b2: "b < 2 * s" and e1: "- 1074 < e" by (simp_all add: s_def)
    define k where "k = \<lfloor>x / 2\<rfloor>"
    have k1: "of_int (2 * k) \<le> x"
    proof -
      have "of_int k \<le> x / 2" unfolding k_def by (rule of_int_floor_le)
      then show ?thesis by simp
    qed
    have k2: "x < of_int (2 * k + 2)"
    proof -
      have "x / 2 < of_int k + 1" unfolding k_def by linarith
      then show ?thesis by simp
    qed
    have strict: "float_val (m, e) < of_int (2 * k + 2)"
    proof -
      let ?c = "2 * k + 2"
      from k2 bpos have "(of_int a :: rat) < of_int ?c * of_int b"
        by (simp add: x_def pos_divide_less_eq)
      then have "(of_int a :: rat) < of_int (?c * b)" by simp
      then have "a < ?c * b" by (simp only: of_int_less_iff)
      then have ab: "a + 1 \<le> ?c * b" by simp
      have "2 * (a * s) + b < 2 * ((a + 1) * s)" using b2 by (simp add: algebra_simps)
      also have "\<dots> \<le> 2 * (?c * b * s)" using ab spos by (simp add: mult_right_mono)
      finally have "2 * (a * s) + b < 2 * (?c * s * b)" by (simp add: mult.commute mult.left_commute)
      then have "(of_int (2 * (a * s) + b) :: rat) < of_int (2 * (?c * s * b))"
        by (simp only: of_int_less_iff)
      then have "2 * (of_int a * of_int s) + of_int b < 2 * (of_int ?c * of_int s * (of_int b :: rat))"
        by simp
      then have "(2 * (of_int a * of_int s) + of_int b) / (2 * of_int b) < (of_int ?c * of_int s :: rat)"
        using bpos by (simp add: pos_divide_less_eq mult.assoc mult.left_commute)
      moreover have "(2 * (of_int a * of_int s) + of_int b) / (2 * of_int b) = x * of_int s + 1 / 2"
        using bpos by (simp add: x_def field_simps)
      ultimately have lt: "x * of_int s + 1 / 2 < of_int (?c * s)" by simp
      have "of_int m \<le> x * of_int s + 1 / 2" unfolding m_def by (rule rhe_upper)
      from this lt have "(of_int m :: rat) < of_int (?c * s)" by (rule le_less_trans)
      then have "(of_int m :: rat) < of_int ?c * of_int s" by simp
      with sr show ?thesis by (simp add: v pos_divide_less_eq)
    qed
    have hv: "float_val (float_half (m, e)) = float_val (m, e) / 2"
      using e1 by (rule float_val_half)
    have lo: "of_int k \<le> float_val (m, e) / 2" using lower [OF k1] by simp
    have hi: "float_val (m, e) / 2 < of_int k + 1" using strict by simp
    from lo hi have fl: "\<lfloor>float_val (m, e) / 2\<rfloor> = k" by (simp add: floor_unique)
    have "0 \<le> float_val (m, e) / 2" using lower [of 0] xpos by simp
    then have "py_int (float_val (m, e) / 2) = k" using fl by (simp add: py_int_nonneg)
    then show ?thesis by (simp add: f hv k_def x_def)
  next
    case False
    then have "a < b" by simp
    then have x1: "x < 1" using bpos by (simp add: x_def)
    then have "x \<le> of_int 1" by simp
    from upper [OF this] have v1: "float_val (m, e) \<le> 1" by simp
    have v0: "0 \<le> float_val (m, e)" using lower [of 0] xpos by simp
    have m0: "0 \<le> m"
    proof -
      have "of_int 0 \<le> x * of_int s" using xpos sr by simp
      then show ?thesis unfolding m_def by (rule rhe_ge)
    qed
    have h: "0 \<le> float_val (float_half (m, e)) \<and> float_val (float_half (m, e)) < 1"
    proof (cases "- 1074 < e")
      case True
      then show ?thesis using v0 v1 by (simp add: float_val_half)
    next
      case False
      define m' where "m' = round_half_even (of_int m / 2)"
      have fh: "float_half (m, e) = (sgn m * m', e)"
        using False m0 by (simp add: float_half_def m'_def)
      have "of_int 0 \<le> (of_int m :: rat) / 2" using m0 by simp
      then have m'0: "0 \<le> m'" unfolding m'_def by (rule rhe_ge)
      have m'1: "of_int m' \<le> (of_int m :: rat) / 2 + 1 / 2" unfolding m'_def by (rule rhe_upper)
      have sm: "sgn m * m' = m'"
      proof (cases "m = 0")
        case True
        then have "m' = 0" by (simp add: m'_def round_half_even_def)
        with True show ?thesis by simp
      next
        case False
        with m0 show ?thesis by simp
      qed
      have val: "float_val (float_half (m, e)) = of_int m' / of_int s"
        using e by (simp add: fh sm float_val_nonpos_exp s_def)
      have s2: "2 \<le> s"
      proof -
        from False e have "e = - 1074" by simp
        then have "s = 2 * 2 ^ 1073" by (simp add: s_def)
        then show ?thesis by simp
      qed
      have "of_int m' / of_int s \<le> ((of_int m :: rat) / 2 + 1 / 2) / of_int s"
        using m'1 sr by (simp add: divide_right_mono)
      also have "\<dots> = float_val (m, e) / 2 + 1 / (2 * of_int s)"
        by (simp add: v add_divide_distrib)
      also have "\<dots> \<le> 1 / 2 + 1 / (2 * of_int s)" using v1 by simp
      also have "\<dots> < 1 / 2 + 1 / 2"
      proof -
        have "(1::rat) < of_int s" using s2 by simp
        then have "1 / (2 * of_int s) < (1::rat) / (2 * 1)"
          by (intro divide_strict_left_mono) simp_all
        then show ?thesis by simp
      qed
      finally have "of_int m' / of_int s < (1::rat)" by simp
      moreover have "0 \<le> (of_int m' :: rat) / of_int s" using m'0 sr by simp
      ultimately show ?thesis by (simp add: val)
    qed
    then have "\<lfloor>float_val (float_half (m, e))\<rfloor> = 0" by (simp add: floor_unique)
    with h have l: "py_int (float_val (float_half (m, e))) = 0" by (simp add: py_int_nonneg)
    have "0 \<le> x / 2" "x / 2 < 1" using xpos x1 by simp_all
    then have "\<lfloor>x / 2\<rfloor> = 0" by (simp add: floor_unique)
    with l show ?thesis by (simp add: f x_def)
  qed
qed


lemma float_half_neg: "float_val (float_half (- m, e)) = - float_val (float_half (m, e))"
  by (simp add: float_half_def float_val_def sgn_minus)

lemma float_val_neg: "float_val (- m, e) = - float_val (m, e)"
  by (simp add: float_val_def)

lemma int_truediv_trunc:
  assumes "b \<noteq> 0" "\<bar>a\<bar> < 2 ^ 53"
  obtains f where "int_truediv a b = Inr f"
    "py_int (float_val (float_half f)) = py_int (of_int a / of_int b / 2)"
proof (cases "a = 0")
  case True
  have "int_truediv a b = Inr (0, 0)"
    using assms True by (auto simp: int_truediv_def round_quotient_def Let_def float_val_def)
  moreover have "py_int (float_val (float_half (0, 0))) = py_int (of_int a / of_int b / 2)"
    using True by (simp add: float_half_def float_val_def py_int_def)
  ultimately show ?thesis by (rule that)
next
  case False
  let ?r = "round_quotient \<bar>a\<bar> \<bar>b\<bar>"
  let ?q = "(of_int \<bar>a\<bar> :: rat) / of_int \<bar>b\<bar> / 2"
  have pos: "0 < \<bar>a\<bar>" "0 < \<bar>b\<bar>" using False assms by simp_all
  note t = trunc_quotient_pos [OF pos assms(2)]
  have q0: "0 \<le> ?q" by simp
  have tr: "py_int (float_val (float_half ?r)) = py_int ?q"
    using t(1) q0 by (simp only: py_int_nonneg)
  have small: "\<bar>float_val ?r\<bar> < 2 ^ 1024"
  proof -
    have "\<bar>float_val ?r\<bar> = float_val ?r" using t(2) by simp
    also have "\<dots> \<le> 2 ^ 53" by (rule t(3))
    also have "\<dots> < (2::rat) ^ 1024" by (rule power_strict_increasing) simp_all
    finally show ?thesis .
  qed
  show ?thesis
  proof (cases "(a < 0) = (b < 0)")
    case True
    then have "int_truediv a b = Inr ?r"
      using assms(1) small by (simp add: int_truediv_def Let_def)
    moreover have "(of_int a :: rat) / of_int b / 2 = ?q"
      using True assms(1) False by (cases "a < 0") (simp_all add: abs_if)
    ultimately show ?thesis using tr by (intro that) simp_all
  next
    case diff: False
    obtain m e where r: "?r = (m, e)" by (cases ?r)
    have "\<bar>float_val (- m, e)\<bar> < 2 ^ 1024" using small by (simp add: r float_val_neg)
    then have "int_truediv a b = Inr (- m, e)"
      using assms(1) diff by (simp add: int_truediv_def Let_def r)
    moreover have "(of_int a :: rat) / of_int b / 2 = - ?q"
      using diff assms(1) False by (cases "a < 0") (auto simp: abs_if)
    moreover have "py_int (float_val (float_half (- m, e))) = - py_int ?q"
      using tr by (simp add: float_half_neg py_int_minus r)
    ultimately show ?thesis by (intro that) (simp_all add: py_int_minus)
  qed
qed

section \<open>The mapped point\<close>

lemma getitem_id [simp]: "getitem_str (encode_element e) ''id'' = Inr (PInt (el_id e))"
  by (simp add: encode_element_def)

lemma mapped_coord_int:
  assumes "b \<noteq> 0" "\<bar>n\<bar> < 2 ^ 53"
  shows "ebind (py_truediv (PInt n) (PInt b)) (\<lambda>q. Inr (py_int (float_val (float_half q)) - P))
           = Inr (py_int (of_int n / of_int b / 2) - P)"
proof -
  from assms obtain f where "int_truediv n b = Inr f"
    "py_int (float_val (float_half f)) = py_int (of_int n / of_int b / 2)"
    by (rule int_truediv_trunc)
  then show ?thesis by simp
qed

lemma mapped_x_encode:
  assumes "img_columns a \<noteq> 0" "in_float_range w e"
  shows "mapped_x w (encode a) (encode_element e) = Inr (point_x w a e)"
proof -
  from assms(2)
  have "\<bar>(column_min (el_bounds e) + column_max (el_bounds e)) * (screen_width w + PADDING_SIZE * 2)\<bar> < 2 ^ 53"
    by (simp add: in_float_range_def)
  from mapped_coord_int [OF assms(1) this] show ?thesis
    by (simp add: mapped_x_def mapped_coord_def encode_def encode_element_def seq_index_def point_x_def)
qed

lemma mapped_y_encode:
  assumes "img_rows a \<noteq> 0" "in_float_range w e"
  shows "mapped_y w (encode a) (encode_element e) = Inr (point_y w a e)"
proof -
  from assms(2)
  have "\<bar>(row_min (el_bounds e) + row_max (el_bounds e)) * (screen_height w + PADDING_SIZE * 2)\<bar> < 2 ^ 53"
    by (simp add: in_float_range_def)
  from mapped_coord_int [OF assms(1) this] show ?thesis
    by (simp add: mapped_y_def mapped_coord_def encode_def encode_element_def seq_index_def point_y_def)
qed

lemma compos_encode [simp]:
  "ebind (getitem_str (encode a) ''compos'') py_iter = Inr (map encode_element (compos a))"
  by (simp add: encode_def)

lemma click_loop_found:
  assumes "detail st = encode a" "img_rows a \<noteq> 0" "img_columns a \<noteq> 0"
    and "find (\<lambda>e. el_id e = i) es = Some e" "in_float_range w e"
  shows "click_loop w i button clicks (map encode_element es) st =
           (Inr True,
            st\<lparr>current_mouse_x := point_x w a e, current_mouse_y := point_y w a e,
               trace := trace st @ [EvClick (point_x w a e) (point_y w a e) button clicks],
               current_window := active_window w\<rparr>)"
  using assms by (induction es) (auto simp: mapped_x_encode mapped_y_encode)

lemma click_loop_absent:
  assumes "find (\<lambda>e. el_id e = i) es = None"
  shows "click_loop w i button clicks (map encode_element es) st = (Inr False, st)"
  using assms by (induction es) (auto split: if_splits)

lemma move_loop_found:
  assumes "detail st = encode a" "img_rows a \<noteq> 0" "img_columns a \<noteq> 0"
    and "find (\<lambda>e. el_id e = i) es = Some e" "in_float_range w e"
  shows "move_loop w i (map encode_element es) st =
           (Inr True,
            st\<lparr>current_mouse_x := point_x w a e, current_mouse_y := point_y w a e,
               trace := trace st @ [EvMoveTo (point_x w a e) (point_y w a e)],
               current_window := active_window w\<rparr>)"
  using assms by (induction es) (auto simp: mapped_x_encode mapped_y_encode)

lemma move_loop_absent:
  assumes "find (\<lambda>e. el_id e = i) es = None"
  shows "move_loop w i (map encode_element es) st = (Inr False, st)"
  using assms by (induction es) (auto split: if_splits)

lemma find_app:
  "find P (xs @ ys) = (case find P xs of None \<Rightarrow> find P ys | Some x \<Rightarrow> Some x)"
  by (induction xs) auto

lemma last_match_Nil: "last_match w a i [] dflt = dflt"
  by (simp add: last_match_def)

lemma last_match_Cons:
  "last_match w a i (e # es) dflt =
     last_match w a i es (if el_id e = i then (point_x w a e, Some (point_y w a e)) else dflt)"
  by (simp add: last_match_def find_app split: option.splits)

lemma drags_loop_Cons_encode:
  assumes "img_rows a \<noteq> 0" "img_columns a \<noteq> 0"
    and "el_id e = fi \<or> el_id e = ti \<longrightarrow> in_float_range w e"
  shows "drags_loop w (encode a) fi ti (encode_element e # cs) (fx, fy, tx, ty) =
           drags_loop w (encode a) fi ti cs
             (fst (if el_id e = fi then (point_x w a e, Some (point_y w a e)) else (fx, fy)),
              snd (if el_id e = fi then (point_x w a e, Some (point_y w a e)) else (fx, fy)),
              fst (if el_id e = ti then (point_x w a e, Some (point_y w a e)) else (tx, ty)),
              snd (if el_id e = ti then (point_x w a e, Some (point_y w a e)) else (tx, ty)))"
  using assms by (auto simp add: mapped_point_def mapped_x_encode mapped_y_encode)

lemma drags_loop_encode:
  assumes "img_rows a \<noteq> 0" "img_columns a \<noteq> 0"
    and "\<forall>e \<in> set es. el_id e = fi \<or> el_id e = ti \<longrightarrow> in_float_range w e"
  shows "drags_loop w (encode a) fi ti (map encode_element es) (fx, fy, tx, ty) =
           Inr (fst (last_match w a fi es (fx, fy)), snd (last_match w a fi es (fx, fy)),
                fst (last_match w a ti es (tx, ty)), snd (last_match w a ti es (tx, ty)))"
  using assms(3)
proof (induction es arbitrary: fx fy tx ty)
  case Nil
  show ?case by (simp add: last_match_Nil)
next
  case (Cons e es)
  let ?p = "(point_x w a e, Some (point_y w a e))"
  let ?F = "if el_id e = fi then ?p else (fx, fy)"
  let ?T = "if el_id e = ti then ?p else (tx, ty)"
  from Cons.prems have here: "el_id e = fi \<or> el_id e = ti \<longrightarrow> in_float_range w e"
    and rest: "\<forall>e \<in> set es. el_id e = fi \<or> el_id e = ti \<longrightarrow> in_float_range w e"
    by simp_all
  have "drags_loop w (encode a) fi ti (map encode_element (e # es)) (fx, fy, tx, ty) =
          drags_loop w (encode a) fi ti (map encode_element es) (fst ?F, snd ?F, fst ?T, snd ?T)"
    by (simp only: list.map drags_loop_Cons_encode [OF assms(1,2) here])
  also have "\<dots> = Inr (fst (last_match w a fi es ?F), snd (last_match w a fi es ?F),
                        fst (last_match w a ti es ?T), snd (last_match w a ti es ?T))"
    using Cons.IH [OF rest, of "fst ?F" "snd ?F" "fst ?T" "snd ?T"] by (simp only: prod.collapse)
  also have "\<dots> = Inr (fst (last_match w a fi (e # es) (fx, fy)), snd (last_match w a fi (e # es) (fx, fy)),
                        fst (last_match w a ti (e # es) (tx, ty)), snd (last_match w a ti (e # es) (tx, ty)))"
    by (simp only: last_match_Cons)
  finally show ?case .
qed

lemma omniparser_click_encode:
  assumes "detail st = encode a" "img_rows a \<noteq> 0" "img_columns a \<noteq> 0"
    and "find (\<lambda>e. el_id e = i) (compos a) = Some e" "in_float_range w e"
  shows "omniparser_click w i button clicks st =
           (Inr True,
            st\<lparr>current_mouse_x := point_x w a e, current_mouse_y := point_y w a e,
               trace := trace st @ [EvClick (point_x w a e) (point_y w a e) button clicks],
               current_window := active_window w\<rparr>)"
  using assms by (simp add: omniparser_click_def click_loop_found)

lemma omniparser_mouse_move_encode:
  assumes "detail st = encode a" "img_rows a \<noteq> 0" "img_columns a \<noteq> 0"
    and "find (\<lambda>e. el_id e = i) (compos a) = Some e" "in_float_range w e"
  shows "omniparser_mouse_move w i st =
           (Inr True,
            st\<lparr>current_mouse_x := point_x w a e, current_mouse_y := point_y w a e,
               trace := trace st @ [EvMoveTo (point_x w a e) (point_y w a e)],
               current_window := active_window w\<rparr>)"
  using assms by (simp add: omniparser_mouse_move_def move_loop_found)

lemma omniparser_drags_encode:
  assumes "detail st = encode a" "img_rows a \<noteq> 0" "img_columns a \<noteq> 0"
    and "\<forall>e \<in> set (compos a). el_id e = from_id \<or> el_id e = to_id \<longrightarrow> in_float_range w e"
    and "find (\<lambda>e. el_id e = from_id) (rev (compos a)) = Some ef"
    and "find (\<lambda>e. el_id e = to_id) (rev (compos a)) = Some et"
    and "point_x w a ef \<noteq> - 1" "point_x w a et \<noteq> - 1"
  shows "omniparser_drags w from_id to_id button key st =
           (Inr True,
            st\<lparr>trace := trace st @ map EvKeyDown (held_key key)
                  @ [EvMoveTo (point_x w a ef) (point_y w a ef),
                     EvDragTo (point_x w a et) (point_y w a et) button]
                  @ map EvKeyUp (held_key key),
               current_mouse_x := point_x w a et, current_mouse_y := point_y w a et,
               current_window := active_window w\<rparr>)"
  using assms(1,5-)
  by (simp add: omniparser_drags_def drags_loop_encode [OF assms(2,3,4)] last_match_def)

lemma omniparser_drags_absent:
  assumes "detail st = encode a" "img_rows a \<noteq> 0" "img_columns a \<noteq> 0"
    and "\<forall>e \<in> set (compos a). el_id e = from_id \<or> el_id e = to_id \<longrightarrow> in_float_range w e"
    and "find (\<lambda>e. el_id e = from_id) (rev (compos a)) = None
       \<or> find (\<lambda>e. el_id e = to_id) (rev (compos a)) = None"
  shows "omniparser_drags w from_id to_id button key st = (Inr False, st)"
  using assms(1,5)
  by (auto simp add: omniparser_drags_def drags_loop_encode [OF assms(2,3,4)] last_match_def
        split: option.splits)

lemma floor_numeral_quotient: "\<lfloor>(numeral a :: rat) / numeral b\<rfloor> = numeral a div numeral b"
  using floor_divide_of_int_eq [of "numeral a" "numeral b", where ?'a = rat] by simp

text \<open>
  Claim C1, as the code has it. On a result of the shape the handlers read, with an
  image of non-zero size and the dividends of the elements concerned below \<open>2^53\<close>
  in absolute value, click and move take the first element carrying the id and drag
  takes the last one for each of its two ids; the target point is the midpoint
  expression truncated towards zero (\<open>int\<close>), not rounded:
  \<open>x = int((column_min + column_max) * (W + 2P) / columns / 2) - P\<close> and
  \<open>y = int((row_min + row_max) * (H + 2P) / rows / 2) - P\<close>, the right-hand sides
  read in exact arithmetic. Drag goes ahead when neither of its two \<open>x\<close> values is
  the marker \<open>-1\<close>.
\<close>

theorem mapped_point_truncates:
  assumes "detail st = encode a" "img_rows a \<noteq> 0" "img_columns a \<noteq> 0"
  shows "(find (\<lambda>e. el_id e = i) (compos a) = Some e \<and> in_float_range w e \<longrightarrow>
            omniparser_click w i button clicks st =
              (Inr True,
               st\<lparr>current_mouse_x := point_x w a e, current_mouse_y := point_y w a e,
                  trace := trace st @ [EvClick (point_x w a e) (point_y w a e) button clicks],
                  current_window := active_window w\<rparr>)
            \<and> omniparser_mouse_move w i st =
              (Inr True,
               st\<lparr>current_mouse_x := point_x w a e, current_mouse_y := point_y w a e,
                  trace := trace st @ [EvMoveTo (point_x w a e) (point_y w a e)],
                  current_window := active_window w\<rparr>))
       \<and> (find (\<lambda>e. el_id e = from_id) (rev (compos a)) = Some ef
            \<and> find (\<lambda>e. el_id e = to_id) (rev (compos a)) = Some et
            \<and> (\<forall>e \<in> set (compos a). el_id e = from_id \<or> el_id e = to_id \<longrightarrow> in_float_range w e)
            \<and> point_x w a ef \<noteq> - 1 \<and> point_x w a et \<noteq> - 1 \<longrightarrow>
            omniparser_drags w from_id to_id button key st =
              (Inr True,
               st\<lparr>trace := trace st @ map EvKeyDown (held_key key)
                     @ [EvMoveTo (point_x w a ef) (point_y w a ef),
                        EvDragTo (point_x w a et) (point_y w a et) button]
                     @ map EvKeyUp (held_key key),
                  current_mouse_x := point_x w a et, current_mouse_y := point_y w a et,
                  current_window := active_window w\<rparr>))"
  using omniparser_click_encode [OF assms, of i e w button clicks]
    omniparser_mouse_move_encode [OF assms, of i e w]
    omniparser_drags_encode [OF assms, of from_id to_id w ef et button key]
  by blast

lemma example_points:
  "point_x example_world example_analysis example_element = 300"
  "point_y example_world example_analysis example_element = 23"
  by (simp_all add: point_x_def point_y_def example_world_def example_analysis_def
        example_element_def PADDING_SIZE_def py_int_def floor_numeral_quotient)

lemma example_facts:
  "detail example_state = encode example_analysis"
  "img_rows example_analysis \<noteq> 0" "img_columns example_analysis \<noteq> 0"
  "find (\<lambda>e. el_id e = 0) (compos example_analysis) = Some example_element"
  "find (\<lambda>e. el_id e = 0) (rev (compos example_analysis)) = Some example_element"
  "in_float_range example_world example_element"
  "\<forall>e \<in> set (compos example_analysis). el_id e = 0 \<or> el_id e = 0 \<longrightarrow> in_float_range example_world e"
  "trace example_state = []" "active_window example_world = Some 7"
  by (simp_all add: example_state_def example_analysis_def example_element_def in_float_range_def
        example_world_def init_def PADDING_SIZE_def)

theorem mapped_point_truncates_witness:
  "omniparser_click example_world 0 ''left'' 1 example_state =
     (Inr True,
      example_state\<lparr>current_mouse_x := 300, current_mouse_y := 23,
         trace := [EvClick 300 23 ''left'' 1], current_window := Some 7\<rparr>)
   \<and> omniparser_mouse_move example_world 0 example_state =
     (Inr True,
      example_state\<lparr>current_mouse_x := 300, current_mouse_y := 23,
         trace := [EvMoveTo 300 23], current_window := Some 7\<rparr>)
   \<and> omniparser_drags example_world 0 0 ''left'' (Some ''shift'') example_state =
     (Inr True,
      example_state\<lparr>trace := [EvKeyDown ''shift'', EvMoveTo 300 23, EvDragTo 300 23 ''left'',
                               EvKeyUp ''shift''],
         current_mouse_x := 300, current_mouse_y := 23, current_window := Some 7\<rparr>)"
proof -
  from mapped_point_truncates [OF example_facts(1-3), of 0 example_element example_world
      "''left''" 1 0 example_element 0 example_element "Some ''shift''"] example_facts(4-7)
  show ?thesis by (simp add: example_points example_facts(8,9) held_key_def)
qed

text \<open>
  With rows 10 to 32 of a 960-row image on a screen 1080 high the midpoint maps to
  23.625: the click goes to row 23, where rounding gives 24.
\<close>

theorem rounded_midpoint_counterexample:
  "current_mouse_y (snd (omniparser_click example_world 0 ''left'' 1 example_state)) = 23
   \<and> round ((10 + 32) * (1080 + 2 * of_int PADDING_SIZE) / (2 * 960) :: rat) - PADDING_SIZE = 24"
proof -
  have "current_mouse_y (snd (omniparser_click example_world 0 ''left'' 1 example_state)) = 23"
    by (simp add: omniparser_click_encode [OF example_facts(1-4) example_facts(6)] example_points)
  moreover have "round ((10 + 32) * (1080 + 2 * of_int PADDING_SIZE) / (2 * 960) :: rat) - PADDING_SIZE = 24"
    by (simp add: PADDING_SIZE_def round_def floor_numeral_quotient)
  ultimately show ?thesis by simp
qed

text \<open>
  Outside the range the float quotient decides: with rows 0 to 1008326606029559 the
  exact midpoint expression has integer part 567183715891626, the click goes one
  row further.
\<close>

lemma float_quotient_beyond_range:
  "ebind (int_truediv (1008326606029559 * 1080) 960) (\<lambda>q. Inr (py_int (float_val (float_half q))))
     = Inr 567183715891627"
  "py_int (of_int (1008326606029559 * 1080) / 960 / 2) = 567183715891626"
  by code_simp+

section \<open>Ids that do not resolve\<close>

text \<open>
  Claim C2. Before any analysis \<open>detail\<close> is None, and the three handlers raise
  TypeError at \<open>detail['compos']\<close> instead of returning False.
\<close>

theorem unpublished_lookup_raises:
  "omniparser_click w i button clicks (init x y win) = (Inl TypeError, init x y win)
   \<and> omniparser_mouse_move w i (init x y win) = (Inl TypeError, init x y win)
   \<and> omniparser_drags w from_id to_id button key (init x y win) = (Inl TypeError, init x y win)"
  by (simp add: omniparser_click_def omniparser_mouse_move_def omniparser_drags_def init_def)

text \<open>On a result of the shape the handlers read, an absent id gives False and no change.\<close>

lemma absent_id_returns_false:
  assumes "detail st = encode a" "img_rows a \<noteq> 0" "img_columns a \<noteq> 0"
    and "i \<notin> el_id ` set (compos a)"
  shows "omniparser_click w i button clicks st = (Inr False, st)"
    and "omniparser_mouse_move w i st = (Inr False, st)"
    and "omniparser_drags w i i button key st = (Inr False, st)"
proof -
  from assms(4) have n: "find (\<lambda>e. el_id e = i) (compos a) = None"
    and r: "find (\<lambda>e. el_id e = i) (rev (compos a)) = None"
    by (auto simp: find_None_iff)
  from assms(4) have none: "\<forall>e \<in> set (compos a). el_id e = i \<or> el_id e = i \<longrightarrow> in_float_range w e"
    by auto
  show "omniparser_click w i button clicks st = (Inr False, st)"
    using assms n by (simp add: omniparser_click_def click_loop_absent)
  show "omniparser_mouse_move w i st = (Inr False, st)"
    using assms n by (simp add: omniparser_mouse_move_def move_loop_absent)
  show "omniparser_drags w i i button key st = (Inr False, st)"
    using r by (simp add: omniparser_drags_absent [OF assms(1-3) none])
qed

lemma drag_with_absent_id_returns_false:
  assumes "detail st = encode a" "img_rows a \<noteq> 0" "img_columns a \<noteq> 0"
    and "\<forall>e \<in> set (compos a). el_id e = from_id \<or> el_id e = to_id \<longrightarrow> in_float_range w e"
    and "from_id \<notin> el_id ` set (compos a) \<or> to_id \<notin> el_id ` set (compos a)"
  shows "omniparser_drags w from_id to_id button key st = (Inr False, st)"
proof -
  from assms(5)
  have "find (\<lambda>e. el_id e = from_id) (rev (compos a)) = None
       \<or> find (\<lambda>e. el_id e = to_id) (rev (compos a)) = None"
    by (auto simp: find_None_iff)
  then show ?thesis by (rule omniparser_drags_absent [OF assms(1-4)])
qed

section \<open>The ids of the summary and the ids of the lookup\<close>

lemma summarise_ok_shape:
  assumes "summarise str_of d = (text, None)"
  shows "(\<exists>xs. d = PList xs) \<or> d = PStr [] \<or> d = PDict []"
proof (cases d)
  case PNone
  with assms show ?thesis by (simp add: summarise_def)
next
  case (PInt n)
  with assms show ?thesis by (simp add: summarise_def)
next
  case (PStr s)
  with assms show ?thesis by (cases s) (simp_all add: summarise_def)
next
  case (PList xs)
  then show ?thesis by simp
next
  case (PDict kvs)
  with assms show ?thesis by (cases kvs) (simp_all add: summarise_def)
qed

text \<open>
  Claim C6. The summary numbers the items of \<open>detail\<close> itself, the handlers look an
  id up in \<open>detail['compos']\<close>. Whenever the summary loop runs to its end on a value,
  that value is a list (or is empty), and click, move and drag raise on it: no id of a
  summary resolves.
\<close>

theorem summary_ids_do_not_resolve:
  assumes "summarise str_of (detail st) = (text, None)"
  shows "(omniparser_click w i button clicks st = (Inl TypeError, st)
            \<or> omniparser_click w i button clicks st = (Inl KeyError, st))
       \<and> (omniparser_mouse_move w i st = (Inl TypeError, st)
            \<or> omniparser_mouse_move w i st = (Inl KeyError, st))
       \<and> (omniparser_drags w from_id to_id button key st = (Inl TypeError, st)
            \<or> omniparser_drags w from_id to_id button key st = (Inl KeyError, st))"
  using summarise_ok_shape [OF assms]
  by (auto simp: omniparser_click_def omniparser_mouse_move_def omniparser_drags_def)

theorem summary_ids_do_not_resolve_witness:
  "summarise str_scalar (detail list_state) = (''ID: 0, text: OK'' @ [CHR 0x0A], None)
   \<and> omniparser_click example_world 0 ''left'' 1 list_state = (Inl TypeError, list_state)"
proof -
  have s: "summarise str_scalar (detail list_state) = (''ID: 0, text: OK'' @ [CHR 0x0A], None)"
    by (simp add: list_state_def example_summary)
  have k: "omniparser_click example_world 0 ''left'' 1 list_state \<noteq> (Inl KeyError, list_state)"
    by (simp add: omniparser_click_def list_state_def example_list_def)
  from summary_ids_do_not_resolve [OF s, of example_world 0 "''left''" 1] k s
  show ?thesis by blast
qed

text \<open>Conversely, on any value on which a click returns, the summary loop raises.\<close>

lemma readable_detail_has_no_summary:
  assumes "fst (omniparser_click w i button clicks st) = Inr found"
  shows "snd (summarise str_of (detail st)) = Some TypeError"
proof -
  from assms obtain kvs where d: "detail st = PDict kvs" and "map_of kvs ''compos'' \<noteq> None"
    by (cases "detail st") (auto simp: omniparser_click_def split: option.splits)
  then have "kvs \<noteq> []" by auto
  then obtain kv rest where "kvs = kv # rest" by (cases kvs) auto
  with d show ?thesis by (simp add: summarise_def)
qed

section \<open>Writing text and pressing keys\<close>

text \<open>
  Claim C8. With a target id the call raises NameError before line 207: neither the
  ASCII text is typed nor the other text copied and pasted.
\<close>

theorem write_with_id_types_nothing:
  "omniparser_write hello 0 example_state = (Inl NameError, example_state)
   \<and> omniparser_write konnichiwa 0 example_state = (Inl NameError, example_state)"
  by (simp add: omniparser_write_def)

text \<open>
  Claim C9. For every id from 0 upwards the call raises NameError at line 203 and does
  nothing else: no click, no text.
\<close>

theorem write_with_id_raises: "omniparser_write content (int n) st = (Inl NameError, st)"
  by (simp add: omniparser_write_def)

text \<open>
  Without an id the call looks nothing up: it activates the recorded window, moves to
  the recorded position, and delivers the text by the path \<open>isascii\<close> selects.
\<close>

lemma write_without_id:
  assumes "i < 0" "current_window st = Some win"
  shows "omniparser_write content i st =
           (Inr (),
            st\<lparr>trace := trace st @ [EvActivate win, EvMoveTo (current_mouse_x st) (current_mouse_y st)]
                  @ (if isascii content then [EvWrite content]
                     else [EvCopy content, EvHotkey [''ctrl'', ''v'']])\<rparr>)"
  using assms by (simp add: omniparser_write_def activate_and_restore_def deliver_def)

lemma write_examples:
  "omniparser_write hello (- 1) (init 5 6 (Some 1)) =
     (Inr (), (init 5 6 (Some 1))\<lparr>trace := [EvActivate 1, EvMoveTo 5 6, EvWrite hello]\<rparr>)"
  "omniparser_write konnichiwa (- 1) (init 5 6 (Some 1)) =
     (Inr (), (init 5 6 (Some 1))
        \<lparr>trace := [EvActivate 1, EvMoveTo 5 6, EvCopy konnichiwa, EvHotkey [''ctrl'', ''v'']]\<rparr>)"
  by (simp_all add: write_without_id init_def isascii_def hello_def konnichiwa_def)

text \<open>
  Claim C10, as the code has it. When \<open>key2\<close> is the empty string,
  \<open>omniparser_input_key\<close> never presses \<open>key3\<close>: with a window recorded it
  activates the window, restores the pointer and presses \<open>key1\<close> alone; with none
  recorded, \<open>current_window.activate()\<close> at line 229 raises AttributeError and no
  key is pressed.
\<close>

theorem input_key_ignores_key3:
  "omniparser_input_key key1 (Some []) key3 st =
     (case current_window st of
        None \<Rightarrow> (Inl AttributeError, st)
      | Some win \<Rightarrow>
          (Inr (),
           st\<lparr>trace := trace st @ [EvActivate win, EvMoveTo (current_mouse_x st) (current_mouse_y st),
                                    EvHotkey [key1]]\<rparr>))"
  by (simp add: omniparser_input_key_def activate_and_restore_def nonempty_key_def
        split: option.splits)

text \<open>With no window recorded, not even \<open>key1\<close> is pressed.\<close>

theorem input_key_without_window_counterexample:
  "omniparser_input_key ''ctrl'' (Some []) (Some ''c'') (init 5 6 None) = (Inl AttributeError, init 5 6 None)"
  by (simp add: omniparser_input_key_def activate_and_restore_def init_def)

lemma input_key_with_window:
  "omniparser_input_key ''ctrl'' (Some []) (Some ''c'') (init 5 6 (Some 1)) =
     (Inr (), (init 5 6 (Some 1))\<lparr>trace := [EvActivate 1, EvMoveTo 5 6, EvHotkey [''ctrl'']]\<rparr>)"
  by (simp add: omniparser_input_key_def activate_and_restore_def nonempty_key_def init_def)

lemma input_key_three:
  assumes "current_window st = Some win" "key2 \<noteq> []" "key3 \<noteq> []"
  shows "omniparser_input_key key1 (Some key2) (Some key3) st =
           (Inr (),
            st\<lparr>trace := trace st @ [EvActivate win, EvMoveTo (current_mouse_x st) (current_mouse_y st),
                                     EvHotkey [key1, key2, key3]]\<rparr>)"
  using assms by (simp add: omniparser_input_key_def activate_and_restore_def nonempty_key_def)

end
